theory Spec2Isabelle
  imports Complex_Main "HOL-Library.Word" "HOL-Library.Sublist"
begin

section \<open>The sample queue of the recorder\<close>

text \<open>
  The plugin keeps the captured audio in two fields, \<^verbatim>\<open>sampleBuffers: Float32Array[]\<close>
  and \<^verbatim>\<open>samplesCollected\<close>. A block is a list of samples; the running count is a
  JavaScript number that \<^verbatim>\<open>takeSamples\<close> decrements without a guard, so it is an
  \<open>int\<close>. The queue operations never look at a sample, so they are polymorphic in the
  sample type; \<open>0\<close> is the value a fresh typed array holds.
\<close>

record 'a queue =
  sampleBuffers :: "'a list list"
  samplesCollected :: int

definition emptyQueue :: "'a queue" where
  "emptyQueue = \<lparr>sampleBuffers = [], samplesCollected = 0\<rparr>"

text \<open>
  \<^verbatim>\<open>this.sampleBuffers.push(clone); this.samplesCollected += clone.length;\<close>
  (the first two statements of \<^verbatim>\<open>onaudioprocess\<close>).
\<close>

definition push :: "'a list \<Rightarrow> 'a queue \<Rightarrow> 'a queue" where
  "push clone q =
     q\<lparr>sampleBuffers := sampleBuffers q @ [clone],
       samplesCollected := samplesCollected q + int (length clone)\<rparr>"

text \<open>
  \<^verbatim>\<open>out.set(source, offset)\<close> of a typed array: the elements of \<open>source\<close> overwrite
  \<open>out\<close> from index \<open>offset\<close> on. The call raises a RangeError when
  \<open>offset + length source\<close> exceeds the length of \<open>out\<close>; \<^verbatim>\<open>takeSamples\<close> only calls it with
  \<open>length source \<le> count - offset\<close>, where \<open>count\<close> is the length of \<open>out\<close>.
\<close>

definition typedSet :: "'a list \<Rightarrow> 'a list \<Rightarrow> nat \<Rightarrow> 'a list" where
  "typedSet out source offset = take offset out @ source @ drop (offset + length source) out"

text \<open>
  The loop of \<^verbatim>\<open>takeSamples\<close>:
  \<^verbatim>\<open>while (offset < count && this.sampleBuffers.length > 0) { ... }\<close>.
  The state is \<open>offset\<close>, \<open>out\<close> and the buffer list; the result is the final \<open>out\<close> and
  the buffers left.
\<close>

function takeLoop :: "nat \<Rightarrow> nat \<Rightarrow> 'a list \<Rightarrow> 'a list list \<Rightarrow> 'a list \<times> 'a list list" where
  "takeLoop count offset out [] = (out, [])"
| "takeLoop count offset out (buffer # rest) =
     (if offset < count then
        (let needed = count - offset in
         if length buffer \<le> needed
         then takeLoop count (offset + length buffer) (typedSet out buffer offset) rest
         else takeLoop count (offset + needed) (typedSet out (take needed buffer) offset)
                (drop needed buffer # rest))
      else (out, buffer # rest))"
  by pat_completeness auto
termination
  by (relation "measure (\<lambda>(count, offset, out, bufs). length bufs + (count - offset))") auto

definition takeSamples :: "nat \<Rightarrow> ('a::zero) queue \<Rightarrow> 'a list \<times> 'a queue" where
  "takeSamples count q =
     (case takeLoop count 0 (replicate count 0) (sampleBuffers q) of
        (out, bufs) \<Rightarrow>
          (out, q\<lparr>sampleBuffers := bufs, samplesCollected := samplesCollected q - int count\<rparr>))"



text \<open>
  The loop of \<^verbatim>\<open>discardSamples\<close>:
  \<^verbatim>\<open>while (remaining > 0 && this.sampleBuffers.length > 0) { ... }\<close>.
\<close>

function discardLoop :: "int \<Rightarrow> 'a list list \<Rightarrow> 'a list list" where
  "discardLoop remaining [] = []"
| "discardLoop remaining (buffer # rest) =
     (if remaining > 0 then
        (if int (length buffer) \<le> remaining
         then discardLoop (remaining - int (length buffer)) rest
         else discardLoop 0 (drop (nat remaining) buffer # rest))
      else buffer # rest)"
  by pat_completeness auto
termination
  by (relation "measure (\<lambda>(remaining, bufs). length bufs + nat remaining)") auto

definition discardSamples :: "int \<Rightarrow> 'a queue \<Rightarrow> 'a queue" where
  "discardSamples count q =
     q\<lparr>sampleBuffers := discardLoop count (sampleBuffers q),
       samplesCollected := max 0 (samplesCollected q - count)\<rparr>"

text \<open>
  \<^verbatim>\<open>trimBacklog(samplesPerChunk)\<close>; the field \<^verbatim>\<open>this.maxBufferedChunks\<close> is the second
  argument. Both are non-negative integers: \<open>samplesPerChunk\<close> is
  \<^verbatim>\<open>Math.max(1, Math.round(...))\<close> and \<open>maxBufferedChunks\<close> is \<^verbatim>\<open>Math.round\<close> of a
  positive number, or 12.
\<close>

definition trimBacklog :: "nat \<Rightarrow> nat \<Rightarrow> 'a queue \<Rightarrow> 'a queue" where
  "trimBacklog samplesPerChunk maxBufferedChunks q =
     (let maxSamples = int samplesPerChunk * int maxBufferedChunks in
      if samplesCollected q \<le> maxSamples then q
      else (let overflow = samplesCollected q - maxSamples in discardSamples overflow q))"

text \<open>
  The invariant of the data model: the running count is the number of queued samples.
\<close>

definition queue_inv :: "'a queue \<Rightarrow> bool" where
  "queue_inv q = (samplesCollected q = int (length (concat (sampleBuffers q))))"

text \<open>
  A run of the queue: every block is pushed, then the samples are taken back in calls of
  the given sizes. Each call is made as \<^verbatim>\<open>onaudioprocess\<close> makes it, behind the test
  \<^verbatim>\<open>this.samplesCollected >= samplesPerChunk\<close>; a call that would be made without enough
  samples ends the run with \<open>None\<close>.
\<close>

fun pushAll :: "'a list list \<Rightarrow> 'a queue \<Rightarrow> 'a queue" where
  "pushAll [] q = q"
| "pushAll (b # bs) q = pushAll bs (push b q)"

fun takeAll :: "nat list \<Rightarrow> ('a::zero) queue \<Rightarrow> ('a list list \<times> 'a queue) option" where
  "takeAll [] q = Some ([], q)"
| "takeAll (n # ns) q =
     (if samplesCollected q \<ge> int n then
        (case takeSamples n q of
           (out, q') \<Rightarrow>
             (case takeAll ns q' of
                None \<Rightarrow> None
              | Some (outs, q'') \<Rightarrow> Some (out # outs, q'')))
      else None)"

section \<open>JavaScript numbers\<close>

text \<open>
  A JavaScript number is NaN, an infinity or a finite value; a finite value is modelled by
  the real it denotes, and zero has no sign. The operations below are the ones the
  settings and the encoder use: comparisons, \<^verbatim>\<open>Math.min\<close>, \<^verbatim>\<open>Math.max\<close>,
  \<^verbatim>\<open>Math.round\<close>, and the products of the encoder (a \<^verbatim>\<open>Float32Array\<close> sample, clamped to
  \<open>[-1, 1]\<close>, times \<open>0x8000\<close> or \<open>0x7fff\<close>, and the sample rate times 2), which a double
  holds exactly, so that the exact product is the value the code computes.
\<close>

datatype number = NaN | Fin real | PosInf | NegInf

fun isFinite :: "number \<Rightarrow> bool" where
  "isFinite (Fin r) = True"
| "isFinite v = False"

text \<open>The comparisons \<^verbatim>\<open>a < b\<close> and \<^verbatim>\<open>a <= b\<close>: false when an operand is NaN.\<close>

fun num_less :: "number \<Rightarrow> number \<Rightarrow> bool" where
  "num_less (Fin a) (Fin b) = (a < b)"
| "num_less NegInf (Fin b) = True"
| "num_less NegInf PosInf = True"
| "num_less (Fin a) PosInf = True"
| "num_less a b = False"

fun num_le :: "number \<Rightarrow> number \<Rightarrow> bool" where
  "num_le (Fin a) (Fin b) = (a \<le> b)"
| "num_le NaN b = False"
| "num_le a NaN = False"
| "num_le NegInf b = True"
| "num_le a PosInf = True"
| "num_le a b = False"

definition math_max :: "number \<Rightarrow> number \<Rightarrow> number" where
  "math_max a b = (if a = NaN \<or> b = NaN then NaN else if num_less a b then b else a)"

definition math_min :: "number \<Rightarrow> number \<Rightarrow> number" where
  "math_min a b = (if a = NaN \<or> b = NaN then NaN else if num_less b a then b else a)"

text \<open>\<^verbatim>\<open>Math.round\<close>: the nearest integer, a tie going up.\<close>

fun math_round :: "number \<Rightarrow> number" where
  "math_round (Fin r) = Fin (of_int \<lfloor>r + 1 / 2\<rfloor>)"
| "math_round v = v"

fun signum :: "number \<Rightarrow> real" where
  "signum NaN = 0"
| "signum (Fin r) = sgn r"
| "signum PosInf = 1"
| "signum NegInf = - 1"

definition infinityOfSign :: "real \<Rightarrow> number" where
  "infinityOfSign s = (if s > 0 then PosInf else if s < 0 then NegInf else NaN)"

fun num_mul :: "number \<Rightarrow> number \<Rightarrow> number" where
  "num_mul NaN b = NaN"
| "num_mul a NaN = NaN"
| "num_mul (Fin a) (Fin b) = Fin (a * b)"
| "num_mul a b = infinityOfSign (signum a * signum b)"

text \<open>
  The conversions of a typed-array store and of the \<^verbatim>\<open>DataView\<close> setters (ToInt16,
  ToUint16, ToUint32 of the language): NaN and the infinities become 0; a finite value is
  truncated towards zero and reduced modulo \<open>2 ^ 16\<close> or \<open>2 ^ 32\<close>, and for the signed
  conversion a result from \<open>2 ^ 15\<close> on stands for the negative value \<open>2 ^ 16\<close> below it.
\<close>

definition js_truncate :: "real \<Rightarrow> int" where
  "js_truncate r = (if r < 0 then \<lceil>r\<rceil> else \<lfloor>r\<rfloor>)"

fun ToInt16 :: "number \<Rightarrow> int" where
  "ToInt16 (Fin r) =
     (let int16bit = js_truncate r mod 65536 in
      if int16bit \<ge> 32768 then int16bit - 65536 else int16bit)"
| "ToInt16 v = 0"

fun ToUint16 :: "number \<Rightarrow> nat" where
  "ToUint16 (Fin r) = nat (js_truncate r mod 65536)"
| "ToUint16 v = 0"

fun ToUint32 :: "number \<Rightarrow> nat" where
  "ToUint32 (Fin r) = nat (js_truncate r mod 4294967296)"
| "ToUint32 v = 0"

section \<open>The tuning settings\<close>

text \<open>
  The three fields of \<^verbatim>\<open>STTSettings\<close> that \<^verbatim>\<open>applyTuningSettings\<close> reads, and the three
  fields of the plugin (\<^verbatim>\<open>this.silenceRmsThreshold\<close>, \<^verbatim>\<open>this.maxBufferedChunks\<close>,
  \<^verbatim>\<open>this.maxConsecutiveWordRepeats\<close>) that it assigns.
\<close>

record STTSettings =
  silenceThreshold :: number
  maxBufferedChunks :: number
  maxConsecutiveWordRepeats :: number

record tuning =
  this_silenceRmsThreshold :: number
  this_maxBufferedChunks :: number
  this_maxConsecutiveWordRepeats :: number

definition applyTuningSettings :: "STTSettings \<Rightarrow> tuning" where
  "applyTuningSettings settings =
     \<lparr>this_silenceRmsThreshold =
        (if isFinite (silenceThreshold settings)
         then math_max (Fin 0) (silenceThreshold settings)
         else Fin (15 / 10000)),
      this_maxBufferedChunks =
        (if isFinite (maxBufferedChunks settings) \<and> num_less (Fin 0) (maxBufferedChunks settings)
         then math_round (maxBufferedChunks settings)
         else Fin 12),
      this_maxConsecutiveWordRepeats =
        (if isFinite (maxConsecutiveWordRepeats settings)
            \<and> num_le (Fin 1) (maxConsecutiveWordRepeats settings)
         then math_round (maxConsecutiveWordRepeats settings)
         else Fin 2)\<rparr>"

section \<open>The WAV encoder\<close>

type_synonym byte = "8 word"

text \<open>
  The setters of a \<^verbatim>\<open>DataView\<close>, little-endian. They raise a RangeError outside the
  buffer; \<^verbatim>\<open>encodeWav\<close> allocates \<open>44 + 2 * length samples\<close> bytes and writes below
  that bound only.
\<close>

definition setUint8 :: "byte list \<Rightarrow> nat \<Rightarrow> nat \<Rightarrow> byte list" where
  "setUint8 view offset v = view[offset := of_nat (v mod 256)]"

definition setUint16 :: "byte list \<Rightarrow> nat \<Rightarrow> number \<Rightarrow> byte list" where
  "setUint16 view offset value =
     (let v = ToUint16 value in
      view[offset := of_nat (v mod 256), offset + 1 := of_nat (v div 256 mod 256)])"

definition setInt16 :: "byte list \<Rightarrow> nat \<Rightarrow> int \<Rightarrow> byte list" where
  "setInt16 view offset value =
     (let v = nat (value mod 65536) in
      view[offset := of_nat (v mod 256), offset + 1 := of_nat (v div 256 mod 256)])"

definition setUint32 :: "byte list \<Rightarrow> nat \<Rightarrow> number \<Rightarrow> byte list" where
  "setUint32 view offset value =
     (let v = ToUint32 value in
      view[offset := of_nat (v mod 256), offset + 1 := of_nat (v div 256 mod 256),
           offset + 2 := of_nat (v div 65536 mod 256),
           offset + 3 := of_nat (v div 16777216 mod 256)])"

definition charCodeAt :: "char \<Rightarrow> nat" where
  "charCodeAt c = of_char c"

fun writeString :: "byte list \<Rightarrow> nat \<Rightarrow> string \<Rightarrow> byte list" where
  "writeString view offset [] = view"
| "writeString view offset (c # str) = writeString (setUint8 view offset (charCodeAt c)) (offset + 1) str"

text \<open>
  One sample of the first loop: clamp, scale, and store into the \<^verbatim>\<open>Int16Array\<close>,
  whose elements are the integers from \<open>-32768\<close> to \<open>32767\<close>.
\<close>

definition pcmSample :: "number \<Rightarrow> int" where
  "pcmSample sample =
     (let s = math_max (Fin (- 1)) (math_min (Fin 1) sample) in
      ToInt16 (if num_less s (Fin 0) then num_mul s (Fin 32768) else num_mul s (Fin 32767)))"

text \<open>The last loop: \<^verbatim>\<open>view.setInt16(44 + i * 2, pcm[i], true)\<close> for \<open>i\<close> from 0.\<close>

fun writePcm :: "byte list \<Rightarrow> nat \<Rightarrow> int list \<Rightarrow> byte list" where
  "writePcm view i [] = view"
| "writePcm view i (p # pcm) = writePcm (setInt16 view (44 + i * 2) p) (i + 1) pcm"

definition encodeWav :: "number list \<Rightarrow> number \<Rightarrow> byte list" where
  "encodeWav samples sampleRate =
     (let buffer = replicate (44 + length samples * 2) 0;
          pcm = map pcmSample samples;
          v1 = writeString buffer 0 ''RIFF'';
          v2 = setUint32 v1 4 (Fin (real (36 + length pcm * 2)));
          v3 = writeString v2 8 ''WAVE'';
          v4 = writeString v3 12 ''fmt '';
          v5 = setUint32 v4 16 (Fin 16);
          v6 = setUint16 v5 20 (Fin 1);
          v7 = setUint16 v6 22 (Fin 1);
          v8 = setUint32 v7 24 sampleRate;
          v9 = setUint32 v8 28 (num_mul sampleRate (Fin 2));
          v10 = setUint16 v9 32 (Fin 2);
          v11 = setUint16 v10 34 (Fin 16);
          v12 = writeString v11 36 ''data'';
          v13 = setUint32 v12 40 (Fin (real (length pcm * 2)))
      in writePcm v13 0 pcm)"

text \<open>
  Reading a WAV file by the documented layout (the readers of a \<^verbatim>\<open>DataView\<close>,
  little-endian): what a decoder of the container sees.
\<close>

definition getUint16 :: "byte list \<Rightarrow> nat \<Rightarrow> nat" where
  "getUint16 view offset = unat (view ! offset) + 256 * unat (view ! (offset + 1))"

definition getInt16 :: "byte list \<Rightarrow> nat \<Rightarrow> int" where
  "getInt16 view offset =
     (let u = int (getUint16 view offset) in if u < 32768 then u else u - 65536)"

definition getUint32 :: "byte list \<Rightarrow> nat \<Rightarrow> nat" where
  "getUint32 view offset =
     unat (view ! offset) + 256 * unat (view ! (offset + 1))
       + 65536 * unat (view ! (offset + 2)) + 16777216 * unat (view ! (offset + 3))"

definition getString :: "byte list \<Rightarrow> nat \<Rightarrow> nat \<Rightarrow> string" where
  "getString view offset n = map (\<lambda>i. char_of (unat (view ! (offset + i)))) [0..<n]"

record wavHeader =
  riffTag :: string
  riffSize :: nat
  waveTag :: string
  fmtTag :: string
  fmtSize :: nat
  audioFormat :: nat
  channels :: nat
  headerSampleRate :: nat
  byteRate :: nat
  blockAlign :: nat
  bitsPerSample :: nat
  dataTag :: string
  dataSize :: nat

definition readHeader :: "byte list \<Rightarrow> wavHeader" where
  "readHeader view =
     \<lparr>riffTag = getString view 0 4, riffSize = getUint32 view 4,
      waveTag = getString view 8 4, fmtTag = getString view 12 4,
      fmtSize = getUint32 view 16, audioFormat = getUint16 view 20,
      channels = getUint16 view 22, headerSampleRate = getUint32 view 24,
      byteRate = getUint32 view 28, blockAlign = getUint16 view 32,
      bitsPerSample = getUint16 view 34, dataTag = getString view 36 4,
      dataSize = getUint32 view 40\<rparr>"

text \<open>The sample count a decoder derives: the data size over the block align.\<close>

definition decodedSampleCount :: "byte list \<Rightarrow> nat" where
  "decodedSampleCount view = dataSize (readHeader view) div blockAlign (readHeader view)"

text \<open>
  The conversion the specification gives for a sample:
  \<open>round(clamp(s, -1, 1) * (32768 if s < 0 else 32767))\<close>.
\<close>

definition pcmClaimed :: "real \<Rightarrow> int" where
  "pcmClaimed s = round (max (- 1) (min 1 s) * (if s < 0 then 32768 else 32767))"

section \<open>Strings\<close>

text \<open>
  A JavaScript string is a sequence of UTF-16 code units. The model is \<open>string\<close>, whose
  characters are the code units below 256 (ASCII and Latin-1): it covers the strings made
  of those code units. On them the whitespace class \<^verbatim>\<open>\s\<close> (also what \<^verbatim>\<open>trim\<close>
  removes) is tab, line feed, vertical tab, form feed, carriage return, space and the
  no-break space, and \<^verbatim>\<open>toLowerCase\<close> maps \<open>A\<close> to \<open>Z\<close> and the Latin-1 capitals
  (\<open>0xC0\<close> to \<open>0xDE\<close> without the multiplication sign \<open>0xD7\<close>) 32 code units up.
\<close>

definition isSpace :: "char \<Rightarrow> bool" where
  "isSpace c =
     (c = CHR 0x09 \<or> c = CHR 0x0A \<or> c = CHR 0x0B \<or> c = CHR 0x0C \<or> c = CHR 0x0D
      \<or> c = CHR 0x20 \<or> c = CHR 0xA0)"

definition toLowerChar :: "char \<Rightarrow> char" where
  "toLowerChar c =
     (let n = (of_char c :: nat) in
      if (65 \<le> n \<and> n \<le> 90) \<or> (192 \<le> n \<and> n \<le> 222 \<and> n \<noteq> 215)
      then char_of (n + 32) else c)"

definition toLowerCase :: "string \<Rightarrow> string" where
  "toLowerCase s = map toLowerChar s"

definition trimStart :: "string \<Rightarrow> string" where
  "trimStart s = dropWhile isSpace s"

definition trimEnd :: "string \<Rightarrow> string" where
  "trimEnd s = rev (dropWhile isSpace (rev s))"

definition trim :: "string \<Rightarrow> string" where
  "trim s = trimStart (trimEnd s)"

text \<open>
  \<^verbatim>\<open>s.split(/\s+/)\<close>: the pieces between the maximal runs of whitespace. A string that
  starts or ends with whitespace has an empty first or last piece, and the empty string
  gives one empty piece.
\<close>

function splitWs :: "string \<Rightarrow> string list" where
  "splitWs s =
     (let word = takeWhile (\<lambda>c. \<not> isSpace c) s;
          rest = dropWhile (\<lambda>c. \<not> isSpace c) s
      in if rest = [] then [word] else word # splitWs (dropWhile isSpace rest))"
  by pat_completeness auto
termination
proof (relation "measure length")
  fix s word rest
  assume rest: "rest = dropWhile (\<lambda>c. \<not> isSpace c) s" and ne: "rest \<noteq> []"
  have "isSpace (hd rest)"
    using hd_dropWhile [of "\<lambda>c. \<not> isSpace c" s] rest ne by simp
  then have "dropWhile isSpace rest = dropWhile isSpace (tl rest)"
    using ne by (cases rest) simp_all
  moreover have "length (dropWhile isSpace (tl rest)) \<le> length (tl rest)"
    by (rule length_dropWhile_le)
  moreover have "length (tl rest) < length rest"
    using ne by (cases rest) simp_all
  moreover have "length rest \<le> length s"
    unfolding rest by (rule length_dropWhile_le)
  ultimately show "(dropWhile isSpace rest, s) \<in> measure length"
    by simp
qed simp

text \<open>
  \<^verbatim>\<open>text.split(/(\s+)/)\<close>: as above, and the capture group puts every run of
  whitespace into the result, between the pieces it separates.
\<close>

function splitCapture :: "string \<Rightarrow> string list" where
  "splitCapture s =
     (let word = takeWhile (\<lambda>c. \<not> isSpace c) s;
          rest = dropWhile (\<lambda>c. \<not> isSpace c) s
      in if rest = [] then [word]
         else word # takeWhile isSpace rest # splitCapture (dropWhile isSpace rest))"
  by pat_completeness auto
termination
proof (relation "measure length")
  fix s word rest
  assume rest: "rest = dropWhile (\<lambda>c. \<not> isSpace c) s" and ne: "rest \<noteq> []"
  have "isSpace (hd rest)"
    using hd_dropWhile [of "\<lambda>c. \<not> isSpace c" s] rest ne by simp
  then have "dropWhile isSpace rest = dropWhile isSpace (tl rest)"
    using ne by (cases rest) simp_all
  moreover have "length (dropWhile isSpace (tl rest)) \<le> length (tl rest)"
    by (rule length_dropWhile_le)
  moreover have "length (tl rest) < length rest"
    using ne by (cases rest) simp_all
  moreover have "length rest \<le> length s"
    unfolding rest by (rule length_dropWhile_le)
  ultimately show "(dropWhile isSpace rest, s) \<in> measure length"
    by simp
qed simp

declare splitWs.simps [simp del] splitCapture.simps [simp del]

text \<open>\<^verbatim>\<open>words.join(sep)\<close>.\<close>

fun join :: "string \<Rightarrow> string list \<Rightarrow> string" where
  "join sep [] = []"
| "join sep [w] = w"
| "join sep (w # ws) = w @ sep @ join sep ws"

text \<open>\<^verbatim>\<open>s.replace(/\s+/g, ' ')\<close>: every maximal run of whitespace becomes one space.\<close>

function collapseSpaces :: "string \<Rightarrow> string" where
  "collapseSpaces [] = []"
| "collapseSpaces (c # cs) =
     (if isSpace c then CHR '' '' # collapseSpaces (dropWhile isSpace cs)
      else c # collapseSpaces cs)"
  by pat_completeness auto
termination
  by (relation "measure length") (simp_all add: le_imp_less_Suc length_dropWhile_le)

section \<open>The transcript stitcher\<close>

text \<open>
  The local function \<^verbatim>\<open>normalize\<close> of \<^verbatim>\<open>dedupeConsecutiveWords\<close>:
  \<^verbatim>\<open>token.toLowerCase().replace(/[^a-z0-9\u00c0-\u017f]+/gi, '')\<close>. The characters that
  stay are the letters (the flag \<^verbatim>\<open>i\<close> makes the class hold the capitals too), the
  digits and the code units from \<open>0xC0\<close> on.
\<close>

definition keptByNormalize :: "char \<Rightarrow> bool" where
  "keptByNormalize c =
     (let n = (of_char c :: nat) in
      (97 \<le> n \<and> n \<le> 122) \<or> (65 \<le> n \<and> n \<le> 90) \<or> (48 \<le> n \<and> n \<le> 57) \<or> 192 \<le> n)"

definition normalizeToken :: "string \<Rightarrow> string" where
  "normalizeToken token = filter keptByNormalize (toLowerCase token)"

text \<open>\<^verbatim>\<open>/^\s+$/.test(token)\<close>.\<close>

definition isWsToken :: "string \<Rightarrow> bool" where
  "isWsToken token = (token \<noteq> [] \<and> list_all isSpace token)"

text \<open>
  The loop \<^verbatim>\<open>for (const token of tokens)\<close> of \<^verbatim>\<open>dedupeConsecutiveWords\<close>, with its
  state \<open>output\<close>, \<open>lastWord\<close> and \<open>repeatCount\<close>; \<open>maxRepeats\<close> is the field
  \<^verbatim>\<open>this.maxConsecutiveWordRepeats\<close>.
\<close>

fun dedupeLoop :: "int \<Rightarrow> string list \<Rightarrow> string \<Rightarrow> nat \<Rightarrow> string list \<Rightarrow> string list" where
  "dedupeLoop maxRepeats output lastWord repeatCount [] = output"
| "dedupeLoop maxRepeats output lastWord repeatCount (token # tokens) =
     (if isWsToken token then dedupeLoop maxRepeats (output @ [token]) lastWord repeatCount tokens
      else
        (let normalized = normalizeToken token in
         if normalized \<noteq> [] \<and> normalized = lastWord then
           (if int (repeatCount + 1) \<ge> maxRepeats
            then dedupeLoop maxRepeats output lastWord (repeatCount + 1) tokens
            else dedupeLoop maxRepeats (output @ [token]) lastWord (repeatCount + 1) tokens)
         else dedupeLoop maxRepeats (output @ [token]) normalized 0 tokens))"

definition dedupeConsecutiveWords :: "int \<Rightarrow> string \<Rightarrow> string" where
  "dedupeConsecutiveWords maxRepeats text =
     (if text = [] then text
      else (let tokens = splitCapture text;
                output = dedupeLoop maxRepeats [] [] 0 tokens
            in trim (collapseSpaces (concat output))))"

text \<open>
  The loop \<^verbatim>\<open>for (let overlap = maxOverlap; overlap > 0; overlap--)\<close> of
  \<^verbatim>\<open>cleanTranscript\<close>, together with the \<^verbatim>\<open>return\<close> that follows it.
\<close>

fun overlapLoop :: "int \<Rightarrow> string list \<Rightarrow> string list \<Rightarrow> string \<Rightarrow> nat \<Rightarrow> string" where
  "overlapLoop maxRepeats prevWords nextWords normalizedIncoming 0 =
     dedupeConsecutiveWords maxRepeats normalizedIncoming"
| "overlapLoop maxRepeats prevWords nextWords normalizedIncoming (Suc n) =
     (let overlap = Suc n;
          tailPhrase = toLowerCase (join '' '' (drop (length prevWords - overlap) prevWords));
          headPhrase = toLowerCase (join '' '' (take overlap nextWords))
      in if tailPhrase = headPhrase
         then (let remainder = join '' '' (drop overlap nextWords)
               in dedupeConsecutiveWords maxRepeats remainder)
         else overlapLoop maxRepeats prevWords nextWords normalizedIncoming n)"

definition cleanTranscript :: "int \<Rightarrow> string \<Rightarrow> string \<Rightarrow> string" where
  "cleanTranscript maxRepeats incoming previousTail =
     (if incoming = [] then incoming
      else (let normalizedIncoming = trimStart incoming in
            if previousTail = [] then dedupeConsecutiveWords maxRepeats normalizedIncoming
            else (let prevWords = splitWs (trim previousTail);
                      nextWords = splitWs normalizedIncoming;
                      maxOverlap = min 6 (min (length prevWords) (length nextWords))
                  in overlapLoop maxRepeats prevWords nextWords normalizedIncoming maxOverlap)))"

text \<open>
  The rule of the loop told from the tokens alone. \<open>previous\<close> holds the word tokens
  (the tokens that are not whitespace) met so far, the latest first. The repeat index of a
  word token is the number of word tokens right before it that have its normalized form,
  when that form is not empty, and 0 when it is empty. A word token is kept when its
  repeat index is below \<open>maxRepeats\<close>; a whitespace token is always kept.
\<close>

definition repeatIndex :: "string list \<Rightarrow> string \<Rightarrow> nat" where
  "repeatIndex previous token =
     (if normalizeToken token = [] then 0
      else length (takeWhile (\<lambda>w. normalizeToken w = normalizeToken token) previous))"

fun keptTokens :: "int \<Rightarrow> string list \<Rightarrow> string list \<Rightarrow> string list" where
  "keptTokens maxRepeats previous [] = []"
| "keptTokens maxRepeats previous (token # tokens) =
     (if isWsToken token then token # keptTokens maxRepeats previous tokens
      else (if int (repeatIndex previous token) < maxRepeats then [token] else [])
             @ keptTokens maxRepeats (token # previous) tokens)"

text \<open>
  The same rule with the repeat test as the specification words it: a token is an
  immediate repeat when its normalized form equals that of the previous word, with no
  condition on the form being non-empty.
\<close>

definition claimedRepeatIndex :: "string list \<Rightarrow> string \<Rightarrow> nat" where
  "claimedRepeatIndex previous token =
     length (takeWhile (\<lambda>w. normalizeToken w = normalizeToken token) previous)"

fun claimedKeptTokens :: "int \<Rightarrow> string list \<Rightarrow> string list \<Rightarrow> string list" where
  "claimedKeptTokens maxRepeats previous [] = []"
| "claimedKeptTokens maxRepeats previous (token # tokens) =
     (if isWsToken token then token # claimedKeptTokens maxRepeats previous tokens
      else (if int (claimedRepeatIndex previous token) < maxRepeats then [token] else [])
             @ claimedKeptTokens maxRepeats (token # previous) tokens)"

text \<open>
  The comparison of the overlap test told word by word: the last \<open>k\<close> words of the tail
  and the first \<open>k\<close> words of the fragment are the same up to case.
\<close>

definition wordsMatch :: "nat \<Rightarrow> string list \<Rightarrow> string list \<Rightarrow> bool" where
  "wordsMatch k prevWords nextWords =
     (map toLowerCase (drop (length prevWords - k) prevWords)
        = map toLowerCase (take k nextWords))"

text \<open>The comparison \<^verbatim>\<open>tailPhrase === headPhrase\<close> of the loop, for one overlap length.\<close>

definition phraseMatch :: "nat \<Rightarrow> string list \<Rightarrow> string list \<Rightarrow> bool" where
  "phraseMatch overlap prevWords nextWords =
     (toLowerCase (join '' '' (drop (length prevWords - overlap) prevWords))
        = toLowerCase (join '' '' (take overlap nextWords)))"

text \<open>Two whitespace characters next to each other somewhere in a string.\<close>

fun adjacentSpaces :: "string \<Rightarrow> bool" where
  "adjacentSpaces (a # b # cs) = ((isSpace a \<and> isSpace b) \<or> adjacentSpaces (b # cs))"
| "adjacentSpaces cs = False"

text \<open>
  The words of a string: its pieces between the runs of whitespace, without the empty
  pieces that a string starting or ending with whitespace has.
\<close>

definition nonEmptyWords :: "string \<Rightarrow> string list" where
  "nonEmptyWords s = filter (\<lambda>w. w \<noteq> []) (splitWs s)"

text \<open>
  A token list in which every token is either a whitespace token or free of whitespace,
  and every token of the second kind is followed by a whitespace token or by nothing.
\<close>

fun separated :: "string list \<Rightarrow> bool" where
  "separated [] = True"
| "separated (t # ts) =
     ((isWsToken t \<or> (list_all (\<lambda>c. \<not> isSpace c) t \<and> (ts = [] \<or> isWsToken (hd ts))))
      \<and> separated ts)"

section \<open>Properties of the sample queue\<close>

lemma takeLoop_out:
  "length out = count \<Longrightarrow> offset \<le> count \<Longrightarrow>
   fst (takeLoop count offset out bufs) =
     take offset out @ take (count - offset) (concat bufs)
       @ drop (offset + length (concat bufs)) out"
proof (induction count offset out bufs rule: takeLoop.induct)
  case (1 count offset out)
  then show ?case by simp
next
  case (2 count offset out buffer rest)
  show ?case
  proof (cases "offset < count")
    case False
    with 2 show ?thesis by simp
  next
    case lt: True
    show ?thesis
    proof (cases "length buffer \<le> count - offset")
      case True
      have len: "length (typedSet out buffer offset) = count"
        using True lt "2.prems" by (simp add: typedSet_def)
      have ih: "fst (takeLoop count (offset + length buffer) (typedSet out buffer offset) rest) =
          take (offset + length buffer) (typedSet out buffer offset)
             @ take (count - (offset + length buffer)) (concat rest)
             @ drop (offset + length buffer + length (concat rest)) (typedSet out buffer offset)"
        using "2.IH"(1) [OF lt refl True len] True lt by simp
      have a: "take (offset + length buffer) (typedSet out buffer offset) = take offset out @ buffer"
        using True lt "2.prems" by (simp add: typedSet_def)
      have b: "drop (offset + length buffer + length (concat rest)) (typedSet out buffer offset)
           = drop (offset + length buffer + length (concat rest)) out"
        using True lt "2.prems" by (simp add: typedSet_def ac_simps)
      show ?thesis
        using lt True ih a b by (simp add: add.assoc)
    next
      case False
      have c: "typedSet out (take (count - offset) buffer) offset
          = take offset out @ take (count - offset) buffer"
        using False lt "2.prems" by (simp add: typedSet_def)
      show ?thesis
        using lt False c "2.prems" by (simp add: Let_def)
    qed
  qed
qed

lemma takeLoop_discardLoop:
  "offset \<le> count \<Longrightarrow>
   snd (takeLoop count offset out bufs) = discardLoop (int count - int offset) bufs"
proof (induction count offset out bufs rule: takeLoop.induct)
  case (1 count offset out)
  then show ?case by simp
next
  case (2 count offset out buffer rest)
  show ?case
  proof (cases "offset < count")
    case False
    with 2 show ?thesis by simp
  next
    case lt: True
    show ?thesis
    proof (cases "length buffer \<le> count - offset")
      case True
      have "snd (takeLoop count (offset + length buffer) (typedSet out buffer offset) rest)
          = discardLoop (int count - int (offset + length buffer)) rest"
        using "2.IH"(1) [OF lt refl True] True lt by simp
      moreover have "int count - int (offset + length buffer)
          = int count - int offset - int (length buffer)"
        by simp
      moreover have "int (length buffer) \<le> int count - int offset"
        using True lt by linarith
      moreover have "int count - int offset > 0"
        using lt by simp
      ultimately show ?thesis using lt True by (simp del: of_nat_add)
    next
      case False
      then have "\<not> int (length buffer) \<le> int count - int offset"
        using lt by linarith
      moreover have "int count - int offset > 0"
        using lt by simp
      moreover have "nat (int count - int offset) = count - offset"
        using lt by simp
      ultimately show ?thesis using lt False by (simp add: Let_def)
    qed
  qed
qed

lemma discardLoop_concat:
  "concat (discardLoop remaining bufs) = drop (nat remaining) (concat bufs)"
proof (induction remaining bufs rule: discardLoop.induct)
  case (1 remaining)
  then show ?case by simp
next
  case (2 remaining buffer rest)
  show ?case
  proof (cases "remaining > 0")
    case False
    then show ?thesis by simp
  next
    case pos: True
    show ?thesis
    proof (cases "int (length buffer) \<le> remaining")
      case True
      then have "nat (remaining - int (length buffer)) = nat remaining - length buffer"
        by (simp add: nat_diff_distrib')
      with 2 pos True show ?thesis by simp
    next
      case False
      with 2 pos show ?thesis by simp
    qed
  qed
qed

lemma takeSamples_fst:
  "fst (takeSamples n q) =
     take n (concat (sampleBuffers q)) @ replicate (n - length (concat (sampleBuffers q))) 0"
proof -
  have "fst (takeSamples n q) = fst (takeLoop n 0 (replicate n 0) (sampleBuffers q))"
    by (simp add: takeSamples_def split: prod.splits)
  also have "\<dots> = take n (concat (sampleBuffers q))
      @ drop (length (concat (sampleBuffers q))) (replicate n 0)"
    using takeLoop_out [of "replicate n 0" n 0 "sampleBuffers q"] by simp
  finally show ?thesis by simp
qed

lemma takeSamples_snd:
  "snd (takeSamples n q) =
     q\<lparr>sampleBuffers := discardLoop (int n) (sampleBuffers q),
       samplesCollected := samplesCollected q - int n\<rparr>"
  using takeLoop_discardLoop [of 0 n "replicate n 0" "sampleBuffers q"]
  by (cases "takeLoop n 0 (replicate n 0) (sampleBuffers q)") (simp add: takeSamples_def)

lemma takeSamples_inv:
  assumes "queue_inv q" and "int n \<le> samplesCollected q"
  shows "queue_inv (snd (takeSamples n q))"
  using assms by (simp add: takeSamples_snd queue_inv_def discardLoop_concat)

lemma push_buffers: "sampleBuffers (push b q) = sampleBuffers q @ [b]"
  by (simp add: push_def)

lemma push_inv: "queue_inv q \<Longrightarrow> queue_inv (push b q)"
  by (simp add: push_def queue_inv_def)

lemma pushAll_buffers: "sampleBuffers (pushAll bs q) = sampleBuffers q @ bs"
  by (induction bs arbitrary: q) (simp_all add: push_buffers)

lemma pushAll_inv: "queue_inv q \<Longrightarrow> queue_inv (pushAll bs q)"
  by (induction bs arbitrary: q) (simp_all add: push_inv)

lemma takeAll_fifo:
  "queue_inv q \<Longrightarrow> sum_list ns \<le> length (concat (sampleBuffers q)) \<Longrightarrow>
   \<exists>outs q'. takeAll ns q = Some (outs, q')
      \<and> concat outs = take (sum_list ns) (concat (sampleBuffers q))
      \<and> map length outs = ns
      \<and> concat (sampleBuffers q') = drop (sum_list ns) (concat (sampleBuffers q))
      \<and> queue_inv q'"
proof (induction ns arbitrary: q)
  case Nil
  then show ?case by simp
next
  case (Cons n ns)
  let ?all = "concat (sampleBuffers q)"
  let ?q1 = "snd (takeSamples n q)"
  have enough: "int n \<le> samplesCollected q"
    using Cons.prems by (simp add: queue_inv_def)
  have n_le: "n \<le> length ?all"
    using Cons.prems by simp
  have out: "fst (takeSamples n q) = take n ?all"
    using n_le by (simp add: takeSamples_fst)
  have rest: "concat (sampleBuffers ?q1) = drop n ?all"
    by (simp add: takeSamples_snd discardLoop_concat)
  have inv1: "queue_inv ?q1"
    using Cons.prems(1) enough by (rule takeSamples_inv)
  have "sum_list ns \<le> length (concat (sampleBuffers ?q1))"
    using Cons.prems(2) rest by simp
  from Cons.IH [OF inv1 this] obtain outs q' where
    run: "takeAll ns ?q1 = Some (outs, q')"
    and cat: "concat outs = take (sum_list ns) (concat (sampleBuffers ?q1))"
    and lens: "map length outs = ns"
    and left: "concat (sampleBuffers q') = drop (sum_list ns) (concat (sampleBuffers ?q1))"
    and inv': "queue_inv q'"
    by blast
  have step: "takeAll (n # ns) q = Some (fst (takeSamples n q) # outs, q')"
    using enough run by (cases "takeSamples n q") simp
  have "take n ?all @ take (sum_list ns) (drop n ?all) = take (n + sum_list ns) ?all"
    by (simp add: take_add)
  moreover have "drop (sum_list ns) (drop n ?all) = drop (n + sum_list ns) ?all"
    by (simp add: add.commute)
  ultimately show ?case
    using step out rest cat lens left inv' n_le by simp
qed


lemma discardSamples_inv:
  assumes "queue_inv q" and "0 \<le> count" and "count \<le> samplesCollected q"
  shows "queue_inv (discardSamples count q)"
  using assms by (simp add: discardSamples_def queue_inv_def discardLoop_concat)

lemma discardLoop_zero: "discardLoop 0 bufs = bufs"
  by (cases bufs) simp_all

lemma discardLoop_split:
  "0 < r \<Longrightarrow> r \<le> int (length (concat bufs)) \<Longrightarrow>
   \<exists>k j. k < length bufs \<and> 0 < j \<and> j \<le> length (bufs ! k)
      \<and> int (length (concat (take k bufs)) + j) = r
      \<and> discardLoop r bufs
          = (if j < length (bufs ! k) then [drop j (bufs ! k)] else []) @ drop (Suc k) bufs"
proof (induction r bufs rule: discardLoop.induct)
  case (1 remaining)
  then show ?case by simp
next
  case (2 remaining buffer rest)
  show ?case
  proof (cases "int (length buffer) \<le> remaining")
    case whole: True
    show ?thesis
    proof (cases "int (length buffer) = remaining")
      case True
      have "discardLoop remaining (buffer # rest) = rest"
        using "2.prems"(1) True by (simp add: discardLoop_zero)
      moreover have "0 < length buffer" using True "2.prems"(1) by (cases buffer) auto
      ultimately have "0 < length (buffer # rest) \<and> 0 < length buffer
          \<and> length buffer \<le> length ((buffer # rest) ! 0)
          \<and> int (length (concat (take 0 (buffer # rest))) + length buffer) = remaining
          \<and> discardLoop remaining (buffer # rest)
              = (if length buffer < length ((buffer # rest) ! 0)
                 then [drop (length buffer) ((buffer # rest) ! 0)] else [])
                @ drop (Suc 0) (buffer # rest)"
        using True "2.prems"(1) by simp
      then show ?thesis by blast
    next
      case False
      let ?r = "remaining - int (length buffer)"
      have pos: "0 < ?r" using whole False by simp
      have le: "?r \<le> int (length (concat rest))" using "2.prems"(2) by simp
      from "2.IH"(1) [OF "2.prems"(1) whole pos le] obtain k j where
        kj: "k < length rest" "0 < j" "j \<le> length (rest ! k)"
          "int (length (concat (take k rest)) + j) = ?r"
          "discardLoop ?r rest
            = (if j < length (rest ! k) then [drop j (rest ! k)] else []) @ drop (Suc k) rest"
        by blast
      have "Suc k < length (buffer # rest) \<and> 0 < j \<and> j \<le> length ((buffer # rest) ! Suc k)
          \<and> int (length (concat (take (Suc k) (buffer # rest))) + j) = remaining
          \<and> discardLoop remaining (buffer # rest)
              = (if j < length ((buffer # rest) ! Suc k)
                 then [drop j ((buffer # rest) ! Suc k)] else [])
                @ drop (Suc (Suc k)) (buffer # rest)"
        using kj "2.prems"(1) whole by simp
      then show ?thesis by blast
    qed
  next
    case False
    then have lt: "nat remaining < length buffer" using "2.prems"(1) by simp
    have "0 < length (buffer # rest) \<and> 0 < nat remaining
        \<and> nat remaining \<le> length ((buffer # rest) ! 0)
        \<and> int (length (concat (take 0 (buffer # rest))) + nat remaining) = remaining
        \<and> discardLoop remaining (buffer # rest)
            = (if nat remaining < length ((buffer # rest) ! 0)
               then [drop (nat remaining) ((buffer # rest) ! 0)] else [])
              @ drop (Suc 0) (buffer # rest)"
      using False lt "2.prems"(1) by (simp add: discardLoop_zero)
    then show ?thesis by blast
  qed
qed




text \<open>
  C7. Blocks pushed into the empty queue (with no trim in between) and taken back in calls
  whose sizes add up to the number of pushed samples, however the total is divided among
  the calls: every call finds enough samples, returns as many as it asked for, and the
  returned arrays joined are the pushed blocks joined, so the order survives the cuts
  inside blocks.
\<close>

theorem queue_fifo:
  "sum_list ns = length (concat blocks) \<Longrightarrow>
   \<exists>outs q'. takeAll ns (pushAll blocks emptyQueue) = Some (outs, q')
      \<and> concat outs = concat blocks \<and> map length outs = ns
      \<and> concat (sampleBuffers q') = [] \<and> samplesCollected q' = 0"
proof -
  assume total: "sum_list ns = length (concat blocks)"
  let ?q = "pushAll blocks (emptyQueue :: 'a queue)"
  have bufs: "sampleBuffers ?q = blocks"
    by (simp add: pushAll_buffers emptyQueue_def)
  have inv: "queue_inv ?q"
    by (rule pushAll_inv) (simp add: queue_inv_def emptyQueue_def)
  have "sum_list ns \<le> length (concat (sampleBuffers ?q))"
    using total bufs by simp
  from takeAll_fifo [OF inv this] obtain outs q' where
    "takeAll ns ?q = Some (outs, q')"
    "concat outs = take (sum_list ns) (concat (sampleBuffers ?q))"
    "map length outs = ns"
    "concat (sampleBuffers q') = drop (sum_list ns) (concat (sampleBuffers ?q))"
    "queue_inv q'"
    by blast
  then show ?thesis
    using total bufs by (simp add: queue_inv_def)
qed

theorem queue_fifo_witness:
  "sum_list [3, 2] = length (concat [[1, 2], [3, 4, 5 :: real]])
   \<and> takeAll [3, 2] (pushAll [[1, 2], [3, 4, 5 :: real]] emptyQueue)
        = Some ([[1, 2, 3], [4, 5]], \<lparr>sampleBuffers = [], samplesCollected = 0\<rparr>)
   \<and> concat [[1, 2, 3], [4, 5 :: real]] = concat [[1, 2], [3, 4, 5]]"
  using queue_fifo [of "[3, 2]" "[[1, 2], [3, 4, 5 :: real]]"]
  by (simp add: emptyQueue_def push_def takeSamples_def typedSet_def numeral_eq_Suc)

text \<open>
  C8. In a queue whose running count is the number of queued samples, after
  \<^verbatim>\<open>trimBacklog\<close> the running count is at most
  \<open>maxSamples = samplesPerChunk * maxBufferedChunks\<close>. When the count was above
  \<open>maxSamples\<close>, exactly \<open>count - maxSamples\<close> samples are gone, they are the oldest ones
  (what stays queued is the sample sequence without its first \<open>count - maxSamples\<close>
  elements: the blocks before the boundary are removed whole and a block the boundary
  falls inside is cut, its back part staying first), and the count is \<open>maxSamples\<close>.
  Otherwise the queue is unchanged.
\<close>

theorem trimBacklog_bound:
  "queue_inv q \<Longrightarrow>
   samplesCollected (trimBacklog spc mbc q) \<le> int spc * int mbc
   \<and> queue_inv (trimBacklog spc mbc q)
   \<and> (samplesCollected q > int spc * int mbc \<longrightarrow>
        samplesCollected (trimBacklog spc mbc q) = int spc * int mbc
        \<and> concat (sampleBuffers (trimBacklog spc mbc q))
            = drop (nat (samplesCollected q - int spc * int mbc)) (concat (sampleBuffers q))
        \<and> length (concat (sampleBuffers (trimBacklog spc mbc q)))
            = length (concat (sampleBuffers q)) - nat (samplesCollected q - int spc * int mbc)
        \<and> (\<exists>k j. k < length (sampleBuffers q) \<and> 0 < j \<and> j \<le> length (sampleBuffers q ! k)
              \<and> int (length (concat (take k (sampleBuffers q))) + j)
                  = samplesCollected q - int spc * int mbc
              \<and> sampleBuffers (trimBacklog spc mbc q)
                  = (if j < length (sampleBuffers q ! k) then [drop j (sampleBuffers q ! k)] else [])
                    @ drop (Suc k) (sampleBuffers q)))
   \<and> (samplesCollected q \<le> int spc * int mbc \<longrightarrow> trimBacklog spc mbc q = q)"
proof -
  assume inv: "queue_inv q"
  let ?max = "int spc * int mbc"
  have nonneg: "0 \<le> ?max" by simp
  show ?thesis
  proof (cases "samplesCollected q \<le> ?max")
    case True
    then have "trimBacklog spc mbc q = q"
      by (simp add: trimBacklog_def)
    with True inv show ?thesis by simp
  next
    case False
    let ?over = "samplesCollected q - ?max"
    have eq: "trimBacklog spc mbc q = discardSamples ?over q"
      using False by (simp add: trimBacklog_def Let_def)
    have over: "0 \<le> ?over" "?over \<le> samplesCollected q"
      using False nonneg by linarith+
    have cnt: "samplesCollected (discardSamples ?over q) = ?max"
      using nonneg by (simp add: discardSamples_def)
    have cat: "concat (sampleBuffers (discardSamples ?over q))
        = drop (nat ?over) (concat (sampleBuffers q))"
      by (simp add: discardSamples_def discardLoop_concat)
    have inv': "queue_inv (discardSamples ?over q)"
      using inv over by (rule discardSamples_inv)
    have "0 < ?over" "?over \<le> int (length (concat (sampleBuffers q)))"
      using False inv by (simp_all add: queue_inv_def)
    from discardLoop_split [OF this] obtain k j where
      "k < length (sampleBuffers q)" "0 < j" "j \<le> length (sampleBuffers q ! k)"
      "int (length (concat (take k (sampleBuffers q))) + j) = ?over"
      "discardLoop ?over (sampleBuffers q)
        = (if j < length (sampleBuffers q ! k) then [drop j (sampleBuffers q ! k)] else [])
          @ drop (Suc k) (sampleBuffers q)"
      by blast
    then have "k < length (sampleBuffers q) \<and> 0 < j \<and> j \<le> length (sampleBuffers q ! k)
        \<and> int (length (concat (take k (sampleBuffers q))) + j) = ?over
        \<and> sampleBuffers (discardSamples ?over q)
            = (if j < length (sampleBuffers q ! k) then [drop j (sampleBuffers q ! k)] else [])
              @ drop (Suc k) (sampleBuffers q)"
      by (simp add: discardSamples_def del: of_nat_add)
    then have split: "\<exists>k j. k < length (sampleBuffers q) \<and> 0 < j
        \<and> j \<le> length (sampleBuffers q ! k)
        \<and> int (length (concat (take k (sampleBuffers q))) + j) = ?over
        \<and> sampleBuffers (discardSamples ?over q)
            = (if j < length (sampleBuffers q ! k) then [drop j (sampleBuffers q ! k)] else [])
              @ drop (Suc k) (sampleBuffers q)"
      by blast
    have "samplesCollected (discardSamples ?over q) \<le> ?max"
      using cnt by simp
    moreover have "length (concat (sampleBuffers (discardSamples ?over q)))
        = length (concat (sampleBuffers q)) - nat ?over"
      using cat by simp
    ultimately show ?thesis
      unfolding eq using inv' cnt cat split False by blast
  qed
qed

theorem trimBacklog_bound_witness:
  "queue_inv \<lparr>sampleBuffers = [[1, 2], [3, 4, 5 :: real]], samplesCollected = 5\<rparr>
   \<and> samplesCollected \<lparr>sampleBuffers = [[1, 2], [3, 4, 5 :: real]], samplesCollected = 5\<rparr>
        > int 3 * int 1
   \<and> trimBacklog 3 1 \<lparr>sampleBuffers = [[1, 2], [3, 4, 5 :: real]], samplesCollected = 5\<rparr>
        = \<lparr>sampleBuffers = [[3, 4, 5]], samplesCollected = 3\<rparr>
   \<and> trimBacklog 2 1 \<lparr>sampleBuffers = [[1, 2], [3, 4, 5 :: real]], samplesCollected = 5\<rparr>
        = \<lparr>sampleBuffers = [[4, 5]], samplesCollected = 2\<rparr>
   \<and> samplesCollected
         (trimBacklog 2 1 \<lparr>sampleBuffers = [[1, 2], [3, 4, 5 :: real]], samplesCollected = 5\<rparr>)
        \<le> int 2 * int 1"
  using trimBacklog_bound
          [of "\<lparr>sampleBuffers = [[1, 2], [3, 4, 5 :: real]], samplesCollected = 5\<rparr>" 2 1]
  by (simp add: queue_inv_def trimBacklog_def discardSamples_def Let_def)

section \<open>Properties of the tuning settings\<close>

text \<open>
  C9 (amended). For every configured \<^verbatim>\<open>maxConsecutiveWordRepeats\<close> below 1 (zero, the
  negative values and minus infinity), the repeat bound that \<^verbatim>\<open>applyTuningSettings\<close>
  puts into effect is the default 2: a value below 1 is replaced by the default, not
  clamped to 1.
\<close>

theorem applyTuningSettings_repeats_below_one:
  "num_less (maxConsecutiveWordRepeats settings) (Fin 1) \<Longrightarrow>
   this_maxConsecutiveWordRepeats (applyTuningSettings settings) = Fin 2"
  by (cases "maxConsecutiveWordRepeats settings") (auto simp: applyTuningSettings_def)

theorem applyTuningSettings_repeats_witness:
  "num_less (maxConsecutiveWordRepeats
      \<lparr>silenceThreshold = Fin (15 / 10000), maxBufferedChunks = Fin 12,
       maxConsecutiveWordRepeats = Fin (- 3)\<rparr>) (Fin 1)
   \<and> this_maxConsecutiveWordRepeats (applyTuningSettings
      \<lparr>silenceThreshold = Fin (15 / 10000), maxBufferedChunks = Fin 12,
       maxConsecutiveWordRepeats = Fin (- 3)\<rparr>) = Fin 2"
  using applyTuningSettings_repeats_below_one
          [of "\<lparr>silenceThreshold = Fin (15 / 10000), maxBufferedChunks = Fin 12,
                maxConsecutiveWordRepeats = Fin (- 3)\<rparr>"]
  by simp

text \<open>
  The claim as stated gives 1 as the effective bound. With 0 configured the bound in
  effect is 2.
\<close>

theorem applyTuningSettings_repeats_counterexample:
  "num_less (Fin 0) (Fin 1)
   \<and> this_maxConsecutiveWordRepeats (applyTuningSettings
      \<lparr>silenceThreshold = Fin (15 / 10000), maxBufferedChunks = Fin 12,
       maxConsecutiveWordRepeats = Fin 0\<rparr>) = Fin 2
   \<and> this_maxConsecutiveWordRepeats (applyTuningSettings
      \<lparr>silenceThreshold = Fin (15 / 10000), maxBufferedChunks = Fin 12,
       maxConsecutiveWordRepeats = Fin 0\<rparr>) \<noteq> Fin 1"
  by (simp add: applyTuningSettings_def)

section \<open>Properties of the WAV encoder\<close>

lemma js_truncate_bounds:
  "real_of_int lo \<le> r \<Longrightarrow> r \<le> real_of_int hi \<Longrightarrow> lo \<le> js_truncate r \<and> js_truncate r \<le> hi"
proof -
  assume a: "real_of_int lo \<le> r" and b: "r \<le> real_of_int hi"
  have f: "lo \<le> \<lfloor>r\<rfloor>" using a by (simp add: le_floor_iff)
  have c: "\<lceil>r\<rceil> \<le> hi" using b by (simp add: ceiling_le_iff)
  have fc: "\<lfloor>r\<rfloor> \<le> \<lceil>r\<rceil>" by (rule floor_le_ceiling)
  have "lo \<le> \<lceil>r\<rceil>" using f fc by (rule order_trans)
  moreover have "\<lfloor>r\<rfloor> \<le> hi" using fc c by (rule order_trans)
  ultimately show ?thesis using f c by (simp add: js_truncate_def)
qed

lemma int16_wrap:
  "- 32768 \<le> k \<Longrightarrow> k \<le> 32767 \<Longrightarrow>
   (let b = k mod 65536 in if b \<ge> 32768 then b - 65536 else b) = k" for k :: int
proof -
  assume lo: "- 32768 \<le> k" and hi: "k \<le> 32767"
  show ?thesis
  proof (cases "0 \<le> k")
    case True
    then have "k mod 65536 = k" using hi by simp
    then show ?thesis using hi by simp
  next
    case False
    have "(k + 65536) mod 65536 = k + 65536"
      using lo False by (intro mod_pos_pos_trivial) linarith+
    then have "k mod 65536 = k + 65536" by simp
    then show ?thesis using lo by simp
  qed
qed

lemma ToInt16_in_range:
  "- 32768 \<le> r \<Longrightarrow> r \<le> 32767 \<Longrightarrow> ToInt16 (Fin r) = js_truncate r"
proof -
  assume "- 32768 \<le> r" "r \<le> 32767"
  then have "- 32768 \<le> js_truncate r \<and> js_truncate r \<le> 32767"
    using js_truncate_bounds [of "- 32768" r 32767] by simp
  then show ?thesis using int16_wrap [of "js_truncate r"] by simp
qed

lemma clamp_finite:
  "math_max (Fin (- 1)) (math_min (Fin 1) (Fin s)) = Fin (max (- 1) (min 1 s))"
  by (simp add: math_max_def math_min_def max_def min_def)

lemma pcmSample_finite:
  "pcmSample (Fin s) = js_truncate (max (- 1) (min 1 s) * (if s < 0 then 32768 else 32767))"
proof -
  define c where "c = max (- 1) (min 1 s)"
  have cl: "math_max (Fin (- 1)) (math_min (Fin 1) (Fin s)) = Fin c"
    unfolding c_def by (rule clamp_finite)
  have sg: "(c < 0) = (s < 0)" unfolding c_def by (auto simp: max_def min_def)
  have b: "- 1 \<le> c" "c \<le> 1" unfolding c_def by (auto simp: max_def min_def)
  have p: "pcmSample (Fin s) = ToInt16 (Fin (c * (if s < 0 then 32768 else 32767)))"
    unfolding pcmSample_def cl Let_def using sg by simp
  have "- 32768 \<le> c * (if s < 0 then 32768 else 32767)"
       "c * (if s < 0 then 32768 else 32767) \<le> 32767"
    using b sg by (auto split: if_splits)
  then have "ToInt16 (Fin (c * (if s < 0 then 32768 else 32767)))
      = js_truncate (c * (if s < 0 then 32768 else 32767))"
    by (rule ToInt16_in_range)
  with p show ?thesis unfolding c_def by simp
qed

lemma pcmSample_NaN: "pcmSample NaN = 0"
  by (simp add: pcmSample_def math_max_def math_min_def)

lemma pcmSample_PosInf: "pcmSample PosInf = 32767"
  by (simp add: pcmSample_def math_max_def math_min_def js_truncate_def Let_def)

lemma pcmSample_NegInf: "pcmSample NegInf = - 32768"
  by (simp add: pcmSample_def math_max_def math_min_def js_truncate_def Let_def)

lemma pcmSample_range: "- 32768 \<le> pcmSample x \<and> pcmSample x \<le> 32767"
proof (cases x)
  case (Fin s)
  have "- 1 \<le> max (- 1) (min 1 s)" "max (- 1) (min 1 s) \<le> 1"
    by (auto simp: max_def min_def)
  then have "real_of_int (- 32768) \<le> max (- 1) (min 1 s) * (if s < 0 then 32768 else 32767)"
       "max (- 1) (min 1 s) * (if s < 0 then 32768 else 32767) \<le> real_of_int 32767"
    by (auto simp: max_def min_def split: if_splits)
  from js_truncate_bounds [OF this] show ?thesis
    using Fin by (simp add: pcmSample_finite)
qed (simp_all add: pcmSample_NaN pcmSample_PosInf pcmSample_NegInf)

lemma unat_byte: "unat (of_nat v :: 8 word) = v mod 256"
  by (simp add: unat_of_nat)

lemma u16_recompose: "v < 65536 \<Longrightarrow> v mod 256 + 256 * (v div 256 mod 256) = v" for v :: nat
proof -
  assume "v < 65536"
  then have "v div 256 < 256" by simp
  then have "v div 256 mod 256 = v div 256" by simp
  then show ?thesis by simp
qed

lemma u32_recompose:
  "v < 4294967296 \<Longrightarrow>
   v mod 256 + 256 * (v div 256 mod 256) + 65536 * (v div 65536 mod 256)
     + 16777216 * (v div 16777216 mod 256) = v" for v :: nat
proof -
  assume "v < 4294967296"
  then have "v div 16777216 < 256" by simp
  then have d: "v div 16777216 mod 256 = v div 16777216" by simp
  define r0 r1 r2 q1 q2 q3 where "r0 = v mod 256" and "r1 = v div 256 mod 256"
    and "r2 = v div 65536 mod 256" and "q1 = v div 256" and "q2 = v div 65536"
    and "q3 = v div 16777216"
  have a: "v = 256 * q1 + r0" unfolding q1_def r0_def by simp
  have "v div 256 div 256 = v div 65536" by (simp add: div_mult2_eq[symmetric])
  then have b: "q1 = 256 * q2 + r1" unfolding q1_def q2_def r1_def
    by (metis mult_div_mod_eq)
  have "v div 65536 div 256 = v div 16777216" by (simp add: div_mult2_eq[symmetric])
  then have c: "q2 = 256 * q3 + r2" unfolding q2_def q3_def r2_def
    by (metis mult_div_mod_eq)
  have "r0 + 256 * r1 + 65536 * r2 + 16777216 * q3 = v"
    using a b c by simp
  then show ?thesis
    unfolding r0_def r1_def r2_def q3_def d .
qed

lemma setInt16_length: "length (setInt16 view offset p) = length view"
  by (simp add: setInt16_def Let_def)

lemma setInt16_other:
  "j \<noteq> offset \<Longrightarrow> j \<noteq> offset + 1 \<Longrightarrow> setInt16 view offset p ! j = view ! j"
  by (simp add: setInt16_def Let_def)

lemma writePcm_length: "length (writePcm view i pcm) = length view"
  by (induction pcm arbitrary: view i) (simp_all add: setInt16_length)

lemma writePcm_below: "j < 44 + i * 2 \<Longrightarrow> writePcm view i pcm ! j = view ! j"
proof (induction pcm arbitrary: view i)
  case Nil
  then show ?case by simp
next
  case (Cons p pcm)
  have "writePcm (setInt16 view (44 + i * 2) p) (i + 1) pcm ! j = setInt16 view (44 + i * 2) p ! j"
    using Cons.prems by (intro Cons.IH) simp
  also have "\<dots> = view ! j"
    using Cons.prems by (intro setInt16_other) simp_all
  finally show ?case by simp
qed

lemma getInt16_setInt16:
  assumes "offset + 1 < length view" and "- 32768 \<le> p" and "p \<le> 32767"
  shows "getInt16 (setInt16 view offset p) offset = p"
proof -
  define v where "v = nat (p mod 65536)"
  have v: "v < 65536" unfolding v_def by simp
  have "getUint16 (setInt16 view offset p) offset = v"
    using assms(1) u16_recompose [OF v]
    by (simp add: getUint16_def setInt16_def Let_def v_def [symmetric] unat_byte)
  moreover have "(if int v < 32768 then int v else int v - 65536) = p"
  proof (cases "0 \<le> p")
    case True
    then have "p mod 65536 = p" using assms(3) by simp
    then show ?thesis using True assms(3) by (simp add: v_def)
  next
    case False
    have "(p + 65536) mod 65536 = p + 65536"
      using assms(2) False by (intro mod_pos_pos_trivial) linarith+
    then have "p mod 65536 = p + 65536" by simp
    then show ?thesis using assms(2) by (simp add: v_def)
  qed
  ultimately show ?thesis by (simp add: getInt16_def Let_def)
qed

lemma getInt16_cong:
  "a ! offset = b ! offset \<Longrightarrow> a ! (offset + 1) = b ! (offset + 1) \<Longrightarrow>
   getInt16 a offset = getInt16 b offset"
  by (simp add: getInt16_def getUint16_def)

lemma writePcm_sample:
  "44 + (i + length pcm) * 2 \<le> length view \<Longrightarrow> k < length pcm \<Longrightarrow>
   \<forall>p \<in> set pcm. - 32768 \<le> p \<and> p \<le> 32767 \<Longrightarrow>
   getInt16 (writePcm view i pcm) (44 + (i + k) * 2) = pcm ! k"
proof (induction pcm arbitrary: view i k)
  case Nil
  then show ?case by simp
next
  case (Cons p pcm)
  let ?view = "setInt16 view (44 + i * 2) p"
  show ?case
  proof (cases k)
    case 0
    have "getInt16 (writePcm ?view (i + 1) pcm) (44 + i * 2) = getInt16 ?view (44 + i * 2)"
      by (rule getInt16_cong) (simp_all add: writePcm_below)
    also have "\<dots> = p"
      using Cons.prems by (intro getInt16_setInt16) simp_all
    finally show ?thesis using 0 by simp
  next
    case (Suc k')
    have "getInt16 (writePcm ?view (i + 1) pcm) (44 + (i + 1 + k') * 2) = pcm ! k'"
      using Cons.prems Suc by (intro Cons.IH) (simp_all add: setInt16_length)
    then show ?thesis using Suc by simp
  qed
qed

lemma getUint32_bytes:
  "view ! offset = of_nat (v mod 256) \<Longrightarrow> view ! (offset + 1) = of_nat (v div 256 mod 256) \<Longrightarrow>
   view ! (offset + 2) = of_nat (v div 65536 mod 256) \<Longrightarrow>
   view ! (offset + 3) = of_nat (v div 16777216 mod 256) \<Longrightarrow> v < 4294967296 \<Longrightarrow>
   getUint32 view offset = v"
  using u32_recompose [of v] by (simp add: getUint32_def unat_of_nat)

lemma getUint16_bytes:
  "view ! offset = of_nat (v mod 256) \<Longrightarrow> view ! (offset + 1) = of_nat (v div 256 mod 256) \<Longrightarrow>
   v < 65536 \<Longrightarrow> getUint16 view offset = v"
  using u16_recompose [of v] by (simp add: getUint16_def unat_of_nat)

lemma getString4_bytes:
  "view ! offset = of_nat (charCodeAt a mod 256) \<Longrightarrow>
   view ! (offset + 1) = of_nat (charCodeAt b mod 256) \<Longrightarrow>
   view ! (offset + 2) = of_nat (charCodeAt c mod 256) \<Longrightarrow>
   view ! (offset + 3) = of_nat (charCodeAt d mod 256) \<Longrightarrow>
   getString view offset 4 = [a, b, c, d]"
proof -
  have "[0..<4] = [0, 1, 2, 3]" by (simp add: upt_rec)
  moreover have "\<And>x. char_of (unat (of_nat (charCodeAt x mod 256) :: 8 word)) = x"
    by (simp add: unat_of_nat charCodeAt_def)
  ultimately show "view ! offset = of_nat (charCodeAt a mod 256) \<Longrightarrow>
   view ! (offset + 1) = of_nat (charCodeAt b mod 256) \<Longrightarrow>
   view ! (offset + 2) = of_nat (charCodeAt c mod 256) \<Longrightarrow>
   view ! (offset + 3) = of_nat (charCodeAt d mod 256) \<Longrightarrow>
   getString view offset 4 = [a, b, c, d]"
    by (simp add: getString_def)
qed

lemma ToUint32_less: "ToUint32 x < 4294967296"
  by (cases x) simp_all

lemma ToUint16_less: "ToUint16 x < 65536"
  by (cases x) simp_all

lemma ToUint32_nat: "ToUint32 (Fin (real n)) = n mod 4294967296"
  by (simp add: js_truncate_def nat_mod_distrib)

lemma ToUint16_nat: "ToUint16 (Fin (real n)) = n mod 65536"
  by (simp add: js_truncate_def nat_mod_distrib)


lemma encodeWav_header_fields:
  "readHeader (encodeWav samples sampleRate) =
     \<lparr>riffTag = ''RIFF'', riffSize = (36 + length samples * 2) mod 4294967296,
      waveTag = ''WAVE'', fmtTag = ''fmt '', fmtSize = 16, audioFormat = 1, channels = 1,
      headerSampleRate = ToUint32 sampleRate,
      byteRate = ToUint32 (num_mul sampleRate (Fin 2)),
      blockAlign = 2, bitsPerSample = 16, dataTag = ''data'',
      dataSize = (length samples * 2) mod 4294967296\<rparr>"
proof -
  define n where "n = length samples"
  define H where "H =
    setUint32 (writeString (setUint16 (setUint16 (setUint32 (setUint32 (setUint16 (setUint16
      (setUint32 (writeString (writeString (setUint32 (writeString
        (replicate (44 + n * 2) 0) 0 ''RIFF'') 4 (Fin (real (36 + n * 2)))) 8 ''WAVE'') 12 ''fmt '')
      16 (Fin 16)) 20 (Fin 1)) 22 (Fin 1)) 24 sampleRate) 28 (num_mul sampleRate (Fin 2)))
      32 (Fin 2)) 34 (Fin 16)) 36 ''data'') 40 (Fin (real (n * 2)))"
  have enc: "encodeWav samples sampleRate = writePcm H 0 (map pcmSample samples)"
    by (simp add: encodeWav_def Let_def H_def n_def)
  have rd: "\<And>j. j < 44 \<Longrightarrow> encodeWav samples sampleRate ! j = H ! j"
    unfolding enc by (rule writePcm_below) simp
  note defs = H_def setUint32_def setUint16_def setUint8_def Let_def
    numeral_2_eq_2 [symmetric] numeral_3_eq_3 [symmetric]
  have f1: "getString (encodeWav samples sampleRate) 0 4 = ''RIFF''"
    by (rule getString4_bytes) (simp_all add: rd defs del: ToUint32.simps ToUint16.simps)
  have f2: "getUint32 (encodeWav samples sampleRate) 4 = ToUint32 (Fin (real (36 + n * 2)))"
    by (rule getUint32_bytes) (simp_all add: rd defs ToUint32_less del: ToUint32.simps ToUint16.simps)
  have f3: "getString (encodeWav samples sampleRate) 8 4 = ''WAVE''"
    by (rule getString4_bytes) (simp_all add: rd defs del: ToUint32.simps ToUint16.simps)
  have f4: "getString (encodeWav samples sampleRate) 12 4 = ''fmt ''"
    by (rule getString4_bytes) (simp_all add: rd defs del: ToUint32.simps ToUint16.simps)
  have f5: "getUint32 (encodeWav samples sampleRate) 16 = ToUint32 (Fin 16)"
    by (rule getUint32_bytes) (simp_all add: rd defs ToUint32_less del: ToUint32.simps ToUint16.simps)
  have f6: "getUint16 (encodeWav samples sampleRate) 20 = ToUint16 (Fin 1)"
    by (rule getUint16_bytes) (simp_all add: rd defs ToUint16_less del: ToUint32.simps ToUint16.simps)
  have f7: "getUint16 (encodeWav samples sampleRate) 22 = ToUint16 (Fin 1)"
    by (rule getUint16_bytes) (simp_all add: rd defs ToUint16_less del: ToUint32.simps ToUint16.simps)
  have f8: "getUint32 (encodeWav samples sampleRate) 24 = ToUint32 sampleRate"
    by (rule getUint32_bytes) (simp_all add: rd defs ToUint32_less del: ToUint32.simps ToUint16.simps)
  have f9: "getUint32 (encodeWav samples sampleRate) 28 = ToUint32 (num_mul sampleRate (Fin 2))"
    by (rule getUint32_bytes) (simp_all add: rd defs ToUint32_less del: ToUint32.simps ToUint16.simps)
  have f10: "getUint16 (encodeWav samples sampleRate) 32 = ToUint16 (Fin 2)"
    by (rule getUint16_bytes) (simp_all add: rd defs ToUint16_less del: ToUint32.simps ToUint16.simps)
  have f11: "getUint16 (encodeWav samples sampleRate) 34 = ToUint16 (Fin 16)"
    by (rule getUint16_bytes) (simp_all add: rd defs ToUint16_less del: ToUint32.simps ToUint16.simps)
  have f12: "getString (encodeWav samples sampleRate) 36 4 = ''data''"
    by (rule getString4_bytes) (simp_all add: rd defs del: ToUint32.simps ToUint16.simps)
  have f13: "getUint32 (encodeWav samples sampleRate) 40 = ToUint32 (Fin (real (n * 2)))"
    by (rule getUint32_bytes) (simp_all add: rd defs ToUint32_less del: ToUint32.simps ToUint16.simps)
  have c: "ToUint32 (Fin 16) = 16" "ToUint16 (Fin 1) = 1" "ToUint16 (Fin 2) = 2" "ToUint16 (Fin 16) = 16"
    by (simp_all add: js_truncate_def)
  show ?thesis
    unfolding readHeader_def f1 f2 f3 f4 f5 f6 f7 f8 f9 f10 f11 f12 f13 c ToUint32_nat n_def ..
qed

lemma encodeWav_length: "length (encodeWav samples sampleRate) = 44 + length samples * 2"
  by (simp add: encodeWav_def Let_def writePcm_length setUint32_def setUint16_def setUint8_def)

lemma encodeWav_getInt16:
  assumes "i < length samples"
  shows "getInt16 (encodeWav samples sampleRate) (44 + i * 2) = pcmSample (samples ! i)"
proof -
  obtain H where enc: "encodeWav samples sampleRate = writePcm H 0 (map pcmSample samples)"
    and len: "length H = 44 + length samples * 2"
    by (simp add: encodeWav_def Let_def setUint32_def setUint16_def setUint8_def)
  have "getInt16 (writePcm H 0 (map pcmSample samples)) (44 + (0 + i) * 2)
      = map pcmSample samples ! i"
    using assms len by (intro writePcm_sample) (simp_all add: pcmSample_range)
  then show ?thesis using assms enc by simp
qed

text \<open>
  C4 (amended). The 16-bit value that \<^verbatim>\<open>encodeWav\<close> writes for sample \<open>i\<close> (read back
  little-endian at byte \<open>44 + 2 * i\<close>) is, for a finite sample \<open>s\<close>,
  \<open>clamp(s, -1, 1) * (32768 if s < 0 else 32767)\<close> truncated towards zero (not rounded);
  it is 0 for NaN, and the two ends of the range for the infinities. The encoder is a
  total function of its input.
\<close>

theorem encodeWav_sample_value:
  "i < length samples \<Longrightarrow>
   getInt16 (encodeWav samples sampleRate) (44 + i * 2) =
     (case samples ! i of
        NaN \<Rightarrow> 0
      | Fin s \<Rightarrow> js_truncate (max (- 1) (min 1 s) * (if s < 0 then 32768 else 32767))
      | PosInf \<Rightarrow> 32767
      | NegInf \<Rightarrow> - 32768)"
proof -
  assume "i < length samples"
  then have "getInt16 (encodeWav samples sampleRate) (44 + i * 2) = pcmSample (samples ! i)"
    by (rule encodeWav_getInt16)
  then show ?thesis
    by (cases "samples ! i")
       (simp_all add: pcmSample_NaN pcmSample_finite pcmSample_PosInf pcmSample_NegInf)
qed

theorem encodeWav_sample_value_witness:
  "(1 :: nat) < length [Fin (- 2), NaN, Fin 1]
   \<and> getInt16 (encodeWav [Fin (- 2), NaN, Fin 1] (Fin 16000)) (44 + 1 * 2) = 0
   \<and> getInt16 (encodeWav [Fin (- 2), NaN, Fin 1] (Fin 16000)) (44 + 0 * 2) = - 32768
   \<and> getInt16 (encodeWav [Fin (- 2), NaN, Fin 1] (Fin 16000)) (44 + 2 * 2) = 32767"
  using encodeWav_sample_value [of 1 "[Fin (- 2), NaN, Fin 1]" "Fin 16000"]
        encodeWav_sample_value [of 0 "[Fin (- 2), NaN, Fin 1]" "Fin 16000"]
        encodeWav_sample_value [of 2 "[Fin (- 2), NaN, Fin 1]" "Fin 16000"]
  by (simp add: js_truncate_def)

text \<open>
  The claim as stated rounds. For the sample \<open>1/4\<close> the scaled value is \<open>8191.75\<close>:
  the encoder writes 8191, rounding gives 8192.
\<close>

theorem encodeWav_rounding_counterexample:
  "getInt16 (encodeWav [Fin (1 / 4)] (Fin 16000)) 44 = 8191 \<and> pcmClaimed (1 / 4) = 8192"
proof -
  have "\<lfloor>32767 / 4 :: real\<rfloor> = 8191" by (simp add: floor_eq_iff)
  moreover have "\<lfloor>32767 / 4 + 1 / 2 :: real\<rfloor> = 8192" by (simp add: floor_eq_iff)
  moreover have "getInt16 (encodeWav [Fin (1 / 4)] (Fin 16000)) (44 + 0 * 2)
      = pcmSample ([Fin (1 / 4)] ! 0)"
    by (rule encodeWav_getInt16) simp
  ultimately show ?thesis
    by (simp add: pcmSample_finite pcmClaimed_def js_truncate_def round_def)
qed

text \<open>
  C5. For a block of \<open>n\<close> samples and a sample rate that the 32-bit fields of the header
  can hold (\<open>36 + 2 * n < 2 ^ 32\<close> for the sizes, and a whole rate with
  \<open>2 * rate < 2 ^ 32\<close> for the byte rate), \<^verbatim>\<open>encodeWav\<close> produces \<open>44 + 2 * n\<close> bytes
  whose first 44 read, by the RIFF/WAVE/fmt /data layout: PCM format tag 1, 1 channel,
  the sample rate, byte rate \<open>2 * rate\<close>, block align 2, 16 bits per sample and data size
  \<open>2 * n\<close>; so a decoder recovers the sample rate and the sample count exactly.
\<close>

theorem encodeWav_header_roundtrip:
  "36 + length samples * 2 < 4294967296 \<Longrightarrow> rate * 2 < 4294967296 \<Longrightarrow>
   length (encodeWav samples (Fin (real rate))) = 44 + length samples * 2
   \<and> readHeader (encodeWav samples (Fin (real rate))) =
       \<lparr>riffTag = ''RIFF'', riffSize = 36 + length samples * 2,
        waveTag = ''WAVE'', fmtTag = ''fmt '', fmtSize = 16, audioFormat = 1, channels = 1,
        headerSampleRate = rate, byteRate = rate * 2,
        blockAlign = 2, bitsPerSample = 16, dataTag = ''data'',
        dataSize = length samples * 2\<rparr>
   \<and> decodedSampleCount (encodeWav samples (Fin (real rate))) = length samples"
proof -
  assume n: "36 + length samples * 2 < 4294967296" and r: "rate * 2 < 4294967296"
  have "num_mul (Fin (real rate)) (Fin 2) = Fin (real (rate * 2))"
    by simp
  then have br: "ToUint32 (num_mul (Fin (real rate)) (Fin 2)) = rate * 2"
    using r by (simp only: ToUint32_nat) simp
  have sr: "ToUint32 (Fin (real rate)) = rate"
    using r by (simp only: ToUint32_nat) simp
  have hdr: "readHeader (encodeWav samples (Fin (real rate))) =
       \<lparr>riffTag = ''RIFF'', riffSize = 36 + length samples * 2,
        waveTag = ''WAVE'', fmtTag = ''fmt '', fmtSize = 16, audioFormat = 1, channels = 1,
        headerSampleRate = rate, byteRate = rate * 2,
        blockAlign = 2, bitsPerSample = 16, dataTag = ''data'',
        dataSize = length samples * 2\<rparr>"
    using n by (simp only: encodeWav_header_fields br sr) simp
  then have "decodedSampleCount (encodeWav samples (Fin (real rate))) = length samples"
    by (simp add: decodedSampleCount_def)
  with hdr show ?thesis by (simp add: encodeWav_length)
qed

theorem encodeWav_header_roundtrip_witness:
  "36 + length [Fin (1 / 2), NaN, Fin 0] * 2 < (4294967296 :: nat)
   \<and> (16000 :: nat) * 2 < 4294967296
   \<and> headerSampleRate (readHeader (encodeWav [Fin (1 / 2), NaN, Fin 0] (Fin (real 16000)))) = 16000
   \<and> byteRate (readHeader (encodeWav [Fin (1 / 2), NaN, Fin 0] (Fin (real 16000)))) = 32000
   \<and> dataSize (readHeader (encodeWav [Fin (1 / 2), NaN, Fin 0] (Fin (real 16000)))) = 6
   \<and> decodedSampleCount (encodeWav [Fin (1 / 2), NaN, Fin 0] (Fin (real 16000))) = 3
   \<and> length (encodeWav [Fin (1 / 2), NaN, Fin 0] (Fin (real 16000))) = 50"
  using encodeWav_header_roundtrip [of "[Fin (1 / 2), NaN, Fin 0]" 16000]
  by simp

section \<open>Properties of the transcript stitcher\<close>

lemma dedupeLoop_kept:
  "1 \<le> m \<Longrightarrow>
   lastWord = (case previous of [] \<Rightarrow> [] | w # ws \<Rightarrow> normalizeToken w) \<Longrightarrow>
   repeatCount = (case previous of [] \<Rightarrow> 0 | w # ws \<Rightarrow> repeatIndex ws w) \<Longrightarrow>
   dedupeLoop m out lastWord repeatCount tokens = out @ keptTokens m previous tokens"
proof (induction tokens arbitrary: out lastWord repeatCount previous)
  case Nil
  then show ?case by simp
next
  case (Cons token tokens)
  show ?case
  proof (cases "isWsToken token")
    case True
    then show ?thesis
      using Cons.IH [OF Cons.prems, of "out @ [token]"] by simp
  next
    case word: False
    let ?n = "normalizeToken token"
    show ?thesis
    proof (cases "?n \<noteq> [] \<and> ?n = lastWord")
      case True
      then obtain w ws where prev: "previous = w # ws" and w: "normalizeToken w = ?n"
        using Cons.prems(2) by (cases previous) auto
      have ne: "?n \<noteq> []" using True by (rule conjunct1)
      have eq: "?n = lastWord" using True by (rule conjunct2)
      have lw: "lastWord \<noteq> []" using ne eq by simp
      have idx: "repeatIndex previous token = repeatCount + 1"
        using ne prev w Cons.prems(3) by (simp add: repeatIndex_def)
      have last': "lastWord = (case token # previous of [] \<Rightarrow> [] | w # ws \<Rightarrow> normalizeToken w)"
        using True by simp
      have cnt': "repeatCount + 1 = (case token # previous of [] \<Rightarrow> 0 | w # ws \<Rightarrow> repeatIndex ws w)"
        using idx by simp
      show ?thesis
      proof (cases "int (repeatCount + 1) \<ge> m")
        case drop: True
        then show ?thesis
          using word lw eq idx Cons.IH [OF Cons.prems(1) last' cnt', of out]
          by (simp add: Let_def)
      next
        case keep: False
        then show ?thesis
          using word lw eq idx Cons.IH [OF Cons.prems(1) last' cnt', of "out @ [token]"]
          by (simp add: Let_def)
      qed
    next
      case False
      have idx: "repeatIndex previous token = 0"
      proof (cases "?n = []")
        case True
        then show ?thesis by (simp add: repeatIndex_def)
      next
        case ne: False
        then have "?n \<noteq> lastWord" using False by simp
        then show ?thesis
          using Cons.prems(2) by (cases previous) (simp_all add: repeatIndex_def)
      qed
      have last': "?n = (case token # previous of [] \<Rightarrow> [] | w # ws \<Rightarrow> normalizeToken w)"
        by simp
      have cnt': "0 = (case token # previous of [] \<Rightarrow> 0 | w # ws \<Rightarrow> repeatIndex ws w)"
        using idx by simp
      show ?thesis
        using word False idx Cons.prems(1) Cons.IH [OF Cons.prems(1) last' cnt', of "out @ [token]"]
        by (auto simp add: Let_def)
    qed
  qed
qed

text \<open>
  C2 (amended). For every \<open>maxRepeats\<close> of at least 1, \<^verbatim>\<open>dedupeConsecutiveWords\<close> emits
  every whitespace token, and emits a word token unless it is an immediate repeat whose
  repeat index has reached \<open>maxRepeats\<close>, where a token is an immediate repeat only when
  its normalized form is not empty and equals that of the word token before it. The
  repeat index counts the word tokens right before it with that normalized form, so a
  different word (or one whose normalized form is empty) resets it. The emitted tokens
  are joined, the whitespace runs collapsed and the ends trimmed. With \<open>maxRepeats = 2\<close>
  the text \<open>go go go go\<close> becomes \<open>go go\<close>.
\<close>

theorem dedupeConsecutiveWords_rule:
  "1 \<le> maxRepeats \<Longrightarrow>
   dedupeLoop maxRepeats [] [] 0 tokens = keptTokens maxRepeats [] tokens
   \<and> dedupeConsecutiveWords maxRepeats text =
       (if text = [] then []
        else trim (collapseSpaces (concat (keptTokens maxRepeats [] (splitCapture text)))))
   \<and> dedupeConsecutiveWords 2 ''go go go go'' = ''go go''"
proof -
  assume m: "1 \<le> maxRepeats"
  have loop: "\<And>toks. dedupeLoop maxRepeats [] [] 0 toks = keptTokens maxRepeats [] toks"
    using dedupeLoop_kept [OF m, of "[]" "[]" 0 "[]"] by simp
  have "dedupeConsecutiveWords 2 ''go go go go'' = ''go go''"
    by code_simp
  then show ?thesis
    using loop by (simp add: dedupeConsecutiveWords_def Let_def)
qed

theorem dedupeConsecutiveWords_rule_witness:
  "(1 :: int) \<le> 2
   \<and> dedupeLoop 2 [] [] 0 (splitCapture ''go go go go'')
        = [''go'', '' '', ''go'', '' '', '' '']
   \<and> dedupeConsecutiveWords 2 ''The the THE cat'' = ''The the cat''"
proof -
  have m: "(1 :: int) \<le> 2" by simp
  have a: "keptTokens 2 [] (splitCapture ''go go go go'') = [''go'', '' '', ''go'', '' '', '' '']"
    by code_simp
  have b: "trim (collapseSpaces (concat (keptTokens 2 [] (splitCapture ''The the THE cat''))))
      = ''The the cat''"
    by code_simp
  from dedupeConsecutiveWords_rule [OF m, of "splitCapture ''go go go go''" "''The the THE cat''"]
  show ?thesis using a b by simp
qed

text \<open>
  The claim as stated makes a token an immediate repeat whenever its normalized form
  equals that of the previous word. The tokens of \<open>- - -\<close> all have the empty normalized
  form: by that rule the third is dropped with \<open>maxRepeats = 2\<close>; the code keeps it.
\<close>

theorem dedupeConsecutiveWords_empty_form_counterexample:
  "dedupeLoop 2 [] [] 0 (splitCapture ''- - -'') = [''-'', '' '', ''-'', '' '', ''-'']
   \<and> claimedKeptTokens 2 [] (splitCapture ''- - -'') = [''-'', '' '', ''-'', '' '']
   \<and> dedupeConsecutiveWords 2 ''- - -'' = ''- - -''"
  by code_simp

lemma collapseSpaces_only_space:
  "c \<in> set (collapseSpaces s) \<Longrightarrow> isSpace c \<Longrightarrow> c = CHR '' ''"
proof (induction s rule: collapseSpaces.induct)
  case 1
  then show ?case by simp
next
  case (2 d cs)
  then show ?case by (auto split: if_splits)
qed

lemma collapseSpaces_head:
  "s = [] \<or> \<not> isSpace (hd s) \<Longrightarrow>
   collapseSpaces s = [] \<or> \<not> isSpace (hd (collapseSpaces s))"
  by (cases s) auto

lemma adjacentSpaces_Cons:
  "adjacentSpaces (a # ys) = ((ys \<noteq> [] \<and> isSpace a \<and> isSpace (hd ys)) \<or> adjacentSpaces ys)"
  by (cases ys) auto

lemma dropWhile_head: "dropWhile P xs = [] \<or> \<not> P (hd (dropWhile P xs))"
  using hd_dropWhile [of P xs] by blast

lemma collapseSpaces_not_adjacent: "\<not> adjacentSpaces (collapseSpaces s)"
proof (induction s rule: collapseSpaces.induct)
  case 1
  then show ?case by simp
next
  case (2 c cs)
  show ?case
  proof (cases "isSpace c")
    case True
    have "collapseSpaces (dropWhile isSpace cs) = []
        \<or> \<not> isSpace (hd (collapseSpaces (dropWhile isSpace cs)))"
      by (rule collapseSpaces_head) (rule dropWhile_head)
    then show ?thesis
      using True 2 by (auto simp: adjacentSpaces_Cons)
  next
    case False
    then show ?thesis
      using 2 by (auto simp: adjacentSpaces_Cons)
  qed
qed

lemma adjacentSpaces_append_left: "adjacentSpaces xs \<Longrightarrow> adjacentSpaces (xs @ ys)"
  by (induction xs rule: adjacentSpaces.induct) auto

lemma adjacentSpaces_append_right: "adjacentSpaces ys \<Longrightarrow> adjacentSpaces (xs @ ys)"
  by (induction xs) (auto simp: adjacentSpaces_Cons)

lemma trimEnd_prefix: "trimEnd s @ rev (takeWhile isSpace (rev s)) = s"
proof -
  have "rev (takeWhile isSpace (rev s) @ dropWhile isSpace (rev s)) = s"
    by simp
  then show ?thesis unfolding trimEnd_def by (simp only: rev_append)
qed

lemma trimStart_suffix: "takeWhile isSpace s @ trimStart s = s"
  by (simp add: trimStart_def)

lemma trim_not_adjacent: "\<not> adjacentSpaces s \<Longrightarrow> \<not> adjacentSpaces (trim s)"
proof -
  assume a: "\<not> adjacentSpaces s"
  have "\<not> adjacentSpaces (trimEnd s)"
    using a adjacentSpaces_append_left [of "trimEnd s" "rev (takeWhile isSpace (rev s))"]
    by (simp only: trimEnd_prefix) blast
  then show ?thesis
    using adjacentSpaces_append_right [of "trimStart (trimEnd s)" "takeWhile isSpace (trimEnd s)"]
    by (simp only: trim_def trimStart_suffix) blast
qed

lemma set_trim: "set (trim s) \<subseteq> set s"
proof -
  have "set (trimEnd s) \<subseteq> set s"
    unfolding trimEnd_def using set_dropWhileD [of _ isSpace "rev s"] by auto
  moreover have "set (trimStart (trimEnd s)) \<subseteq> set (trimEnd s)"
    unfolding trimStart_def using set_dropWhileD [of _ isSpace "trimEnd s"] by auto
  ultimately show ?thesis unfolding trim_def by blast
qed

lemma trim_ends: "trim s \<noteq> [] \<Longrightarrow> \<not> isSpace (hd (trim s)) \<and> \<not> isSpace (last (trim s))"
proof -
  assume ne: "trim s \<noteq> []"
  have h: "\<not> isSpace (hd (trim s))"
    using ne hd_dropWhile [of isSpace "trimEnd s"] by (simp add: trim_def trimStart_def)
  have te: "trimEnd s \<noteq> []" using ne by (auto simp: trim_def trimStart_def)
  then have "dropWhile isSpace (rev s) \<noteq> []" by (simp add: trimEnd_def)
  then have "\<not> isSpace (hd (dropWhile isSpace (rev s)))" by (rule hd_dropWhile)
  then have l: "\<not> isSpace (last (trimEnd s))"
    using te by (simp add: trimEnd_def last_rev)
  have "last (takeWhile isSpace (trimEnd s) @ trim s) = last (trim s)"
    using ne by simp
  then have "last (trimEnd s) = last (trim s)"
    by (simp only: trim_def trimStart_suffix)
  with h l show ?thesis by simp
qed

lemma not_adjacent_nth:
  "\<not> adjacentSpaces xs \<Longrightarrow> Suc i < length xs \<Longrightarrow> \<not> (isSpace (xs ! i) \<and> isSpace (xs ! Suc i))"
proof (induction xs arbitrary: i rule: adjacentSpaces.induct)
  case (1 a b cs)
  then show ?case by (cases i) auto
qed simp_all

lemma dedupeLoop_whitespace_tokens:
  "filter isWsToken (dedupeLoop m out lastWord repeatCount tokens)
     = filter isWsToken out @ filter isWsToken tokens"
  by (induction tokens arbitrary: out lastWord repeatCount) (auto simp: Let_def)

lemma splitWs_space_Cons:
  "isSpace c \<Longrightarrow> splitWs (c # s) = [] # splitWs (dropWhile isSpace s)"
  by (simp add: splitWs.simps [of "c # s"])

lemma nonEmptyWords_Nil: "nonEmptyWords [] = []"
  by (simp add: nonEmptyWords_def splitWs.simps [of "[]"])

lemma nonEmptyWords_dropWhile: "nonEmptyWords (dropWhile isSpace s) = nonEmptyWords s"
proof (cases s)
  case Nil
  then show ?thesis by simp
next
  case (Cons d s')
  then show ?thesis
    by (cases "isSpace d") (simp_all add: nonEmptyWords_def splitWs_space_Cons)
qed

lemma nonEmptyWords_space_Cons: "isSpace c \<Longrightarrow> nonEmptyWords (c # s) = nonEmptyWords s"
  using nonEmptyWords_dropWhile [of "c # s"] nonEmptyWords_dropWhile [of s] by simp

lemma nonEmptyWords_ws_token: "list_all isSpace t \<Longrightarrow> nonEmptyWords (t @ s) = nonEmptyWords s"
  by (induction t) (simp_all add: nonEmptyWords_space_Cons)

lemma nonEmptyWords_word:
  assumes w: "w \<noteq> []" "\<forall>c \<in> set w. \<not> isSpace c" and s: "s = [] \<or> isSpace (hd s)"
  shows "nonEmptyWords (w @ s) = w # nonEmptyWords s"
proof -
  have tw: "takeWhile (\<lambda>c. \<not> isSpace c) (w @ s) = w"
    using w(2) s by (cases s) (simp_all add: takeWhile_append2)
  have dw: "dropWhile (\<lambda>c. \<not> isSpace c) (w @ s) = s"
    using w(2) s by (cases s) (simp_all add: dropWhile_append2)
  show ?thesis
  proof (cases "s = []")
    case True
    have tk: "takeWhile (\<lambda>c. \<not> isSpace c) w = w" and dk: "dropWhile (\<lambda>c. \<not> isSpace c) w = []"
      using w(2) by (simp_all add: takeWhile_eq_all_conv)
    show ?thesis
      using True w(1)
      by (simp add: nonEmptyWords_def splitWs.simps [of w] splitWs.simps [of "[]"] tk dk)
  next
    case False
    then have "splitWs (w @ s) = w # splitWs (dropWhile isSpace s)"
      using tw dw by (simp add: splitWs.simps [of "w @ s"])
    then have "nonEmptyWords (w @ s) = w # nonEmptyWords (dropWhile isSpace s)"
      using w(1) by (simp add: nonEmptyWords_def)
    then show ?thesis by (simp add: nonEmptyWords_dropWhile)
  qed
qed


lemma collapseSpaces_word_append:
  "\<forall>c \<in> set w. \<not> isSpace c \<Longrightarrow> collapseSpaces (w @ s) = w @ collapseSpaces s"
  by (induction w) simp_all

lemma trimEnd_append:
  "trimEnd (xs @ ys) = (if list_all isSpace ys then trimEnd xs else xs @ trimEnd ys)"
  by (simp add: trimEnd_def dropWhile_append list_all_iff)

lemma trimEnd_word: "\<forall>c \<in> set w. \<not> isSpace c \<Longrightarrow> trimEnd w = w"
proof -
  assume a: "\<forall>c \<in> set w. \<not> isSpace c"
  have "dropWhile isSpace (rev w) = rev w"
    using a by (cases "rev w") (auto simp: rev_swap)
  then show ?thesis by (simp add: trimEnd_def)
qed

lemma trimStart_headed: "s = [] \<or> \<not> isSpace (hd s) \<Longrightarrow> trimStart s = s"
  by (cases s) (simp_all add: trimStart_def)

lemma trimEnd_Nil_iff: "trimEnd z = [] \<longleftrightarrow> list_all isSpace z"
  by (simp add: trimEnd_def dropWhile_eq_Nil_conv list_all_iff)

lemma trim_headed: "z = [] \<or> \<not> isSpace (hd z) \<Longrightarrow> trim z = trimEnd z"
proof (cases "trimEnd z = []")
  case True
  then show ?thesis by (simp add: trim_def trimStart_def)
next
  case False
  assume z: "z = [] \<or> \<not> isSpace (hd z)"
  have "hd (trimEnd z @ rev (takeWhile isSpace (rev z))) = hd (trimEnd z)"
    using False by simp
  then have "hd z = hd (trimEnd z)" by (simp only: trimEnd_prefix)
  moreover have "z \<noteq> []" using False by (auto simp: trimEnd_def)
  ultimately have "\<not> isSpace (hd (trimEnd z))" using z by simp
  then show ?thesis unfolding trim_def by (intro trimStart_headed) simp
qed

lemma trim_space_Cons: "isSpace c \<Longrightarrow> trim (c # x) = trim x"
proof -
  assume c: "isSpace c"
  have "trimEnd ([c] @ x) = (if list_all isSpace x then trimEnd [c] else [c] @ trimEnd x)"
    by (rule trimEnd_append)
  moreover have "trimEnd [c] = []" using c by (simp add: trimEnd_def)
  moreover have "list_all isSpace x \<Longrightarrow> trimEnd x = []" by (simp add: trimEnd_Nil_iff)
  ultimately show ?thesis
    using c by (auto simp: trim_def trimStart_def)
qed

lemma join_Nil_iff: "[] \<notin> set ws \<Longrightarrow> join sep ws = [] \<longleftrightarrow> ws = []"
  by (induction sep ws rule: join.induct) auto

lemma join_Cons: "ws \<noteq> [] \<Longrightarrow> join sep (w # ws) = w @ sep @ join sep ws"
  by (cases ws) simp_all

lemma nonEmptyWords_no_empty: "[] \<notin> set (nonEmptyWords s)"
  by (simp add: nonEmptyWords_def)

lemma trim_collapseSpaces: "trim (collapseSpaces s) = join '' '' (nonEmptyWords s)"
proof (induction s rule: splitWs.induct)
  case (1 s)
  let ?w = "takeWhile (\<lambda>c. \<not> isSpace c) s"
  let ?rest = "dropWhile (\<lambda>c. \<not> isSpace c) s"
  have wfree: "\<forall>c \<in> set ?w. \<not> isSpace c" by (auto dest: set_takeWhileD)
  have whead: "?w = [] \<or> \<not> isSpace (hd ?w)" using wfree by (cases ?w) auto
  have "collapseSpaces (?w @ ?rest) = ?w @ collapseSpaces ?rest"
    using wfree by (rule collapseSpaces_word_append)
  then have col: "collapseSpaces s = ?w @ collapseSpaces ?rest" by simp
  have trimw: "trim ?w = ?w"
    using trim_headed [OF whead] trimEnd_word [OF wfree] by simp
  show ?case
  proof (cases "?rest = []")
    case True
    then have "splitWs s = [?w]"
      by (subst splitWs.simps) (simp only: Let_def simp_thms if_True)
    then have "nonEmptyWords s = (if ?w = [] then [] else [?w])"
      by (simp add: nonEmptyWords_def)
    then show ?thesis using col True trimw by simp
  next
    case False
    let ?rest' = "dropWhile isSpace ?rest"
    let ?z = "collapseSpaces ?rest'"
    let ?ws = "nonEmptyWords ?rest'"
    have ih: "trim ?z = join '' '' ?ws"
      using "1.IH" [OF refl refl False] .
    have "isSpace (hd ?rest)" using False hd_dropWhile [of "\<lambda>c. \<not> isSpace c" s] by simp
    then have crest: "collapseSpaces ?rest = CHR '' '' # ?z"
      using False by (cases ?rest) simp_all
    have "splitWs s = ?w # splitWs ?rest'"
      using False by (subst splitWs.simps) (simp only: Let_def simp_thms if_False)
    then have words: "nonEmptyWords s = (if ?w = [] then [] else [?w]) @ ?ws"
      by (simp add: nonEmptyWords_def)
    have zhead: "?z = [] \<or> \<not> isSpace (hd ?z)"
      by (rule collapseSpaces_head) (rule dropWhile_head)
    have blank: "isSpace CHR '' ''" by (simp add: isSpace_def)
    show ?thesis
    proof (cases "?w = []")
      case True
      then have "trim (collapseSpaces s) = trim ?z"
        using col crest blank by (simp add: trim_space_Cons)
      then show ?thesis using ih words True by simp
    next
      case wne: False
      have tz: "trim ?z = trimEnd ?z" using zhead by (rule trim_headed)
      show ?thesis
      proof (cases "?ws = []")
        case True
        then have "trimEnd ?z = []" using ih tz by simp
        then have "list_all isSpace (CHR '' '' # ?z)"
          using blank by (simp add: trimEnd_Nil_iff)
        then have "trimEnd (?w @ CHR '' '' # ?z) = trimEnd ?w"
          by (simp only: trimEnd_append if_True)
        then have "trim (?w @ CHR '' '' # ?z) = trim ?w"
          by (simp only: trim_def)
        then show ?thesis using col crest trimw words True wne by simp
      next
        case False
        then have "join '' '' ?ws \<noteq> []"
          using nonEmptyWords_no_empty [of ?rest'] by (simp add: join_Nil_iff)
        then have "trimEnd ?z \<noteq> []" using ih tz by simp
        then have nall: "\<not> list_all isSpace ?z" by (simp add: trimEnd_Nil_iff)
        have one: "trimEnd ([CHR '' ''] @ ?z) = [CHR '' ''] @ trimEnd ?z"
          using nall by (simp only: trimEnd_append if_False)
        have "trimEnd (?w @ CHR '' '' # ?z) = ?w @ trimEnd (CHR '' '' # ?z)"
          using nall by (simp add: trimEnd_append [of ?w "CHR '' '' # ?z"])
        then have "trimEnd (?w @ CHR '' '' # ?z) = ?w @ CHR '' '' # trimEnd ?z"
          using one by simp
        moreover have "trimStart (?w @ CHR '' '' # trimEnd ?z) = ?w @ CHR '' '' # trimEnd ?z"
          using wne whead by (intro trimStart_headed) simp
        ultimately have "trim (?w @ CHR '' '' # ?z) = ?w @ CHR '' '' # trimEnd ?z"
          by (simp only: trim_def)
        then have "trim (collapseSpaces s) = ?w @ CHR '' '' # join '' '' ?ws"
          using col crest ih tz by simp
        then show ?thesis using words wne False by (simp add: join_Cons)
      qed
    qed
  qed
qed


lemma splitCapture_unfold:
  "splitCapture s =
     (if dropWhile (\<lambda>c. \<not> isSpace c) s = [] then [takeWhile (\<lambda>c. \<not> isSpace c) s]
      else takeWhile (\<lambda>c. \<not> isSpace c) s
             # takeWhile isSpace (dropWhile (\<lambda>c. \<not> isSpace c) s)
             # splitCapture (dropWhile isSpace (dropWhile (\<lambda>c. \<not> isSpace c) s)))"
  by (subst splitCapture.simps) (simp only: Let_def)

lemma run_isWsToken:
  "rest \<noteq> [] \<Longrightarrow> isSpace (hd rest) \<Longrightarrow> isWsToken (takeWhile isSpace rest)"
  by (cases rest) (auto simp: isWsToken_def list_all_iff dest: set_takeWhileD)

lemma word_not_isWsToken: "\<not> isWsToken (takeWhile (\<lambda>c. \<not> isSpace c) s)"
proof -
  have "\<forall>c \<in> set (takeWhile (\<lambda>c. \<not> isSpace c) s). \<not> isSpace c"
    by (auto dest: set_takeWhileD)
  then show ?thesis
    by (cases "takeWhile (\<lambda>c. \<not> isSpace c) s") (auto simp: isWsToken_def)
qed

lemma splitCapture_concat: "concat (splitCapture s) = s"
proof (induction s rule: splitCapture.induct)
  case (1 s)
  let ?rest = "dropWhile (\<lambda>c. \<not> isSpace c) s"
  show ?case
  proof (cases "?rest = []")
    case True
    then have "splitCapture s = [takeWhile (\<lambda>c. \<not> isSpace c) s]"
      by (simp only: splitCapture_unfold [of s] simp_thms if_True)
    moreover have "takeWhile (\<lambda>c. \<not> isSpace c) s @ ?rest = s" by simp
    ultimately show ?thesis using True by simp
  next
    case False
    have "concat (splitCapture (dropWhile isSpace ?rest)) = dropWhile isSpace ?rest"
      using "1.IH" [OF refl refl False] .
    moreover have "splitCapture s = takeWhile (\<lambda>c. \<not> isSpace c) s # takeWhile isSpace ?rest
        # splitCapture (dropWhile isSpace ?rest)"
      using False by (simp only: splitCapture_unfold [of s] simp_thms if_False)
    ultimately show ?thesis by simp
  qed
qed

lemma splitCapture_separated: "separated (splitCapture s)"
proof (induction s rule: splitCapture.induct)
  case (1 s)
  let ?w = "takeWhile (\<lambda>c. \<not> isSpace c) s"
  let ?rest = "dropWhile (\<lambda>c. \<not> isSpace c) s"
  have wfree: "list_all (\<lambda>c. \<not> isSpace c) ?w"
    by (auto simp: list_all_iff dest: set_takeWhileD)
  show ?case
  proof (cases "?rest = []")
    case True
    then have "splitCapture s = [?w]"
      by (simp only: splitCapture_unfold [of s] simp_thms if_True)
    then show ?thesis using wfree by simp
  next
    case False
    have ih: "separated (splitCapture (dropWhile isSpace ?rest))"
      using "1.IH" [OF refl refl False] .
    have "isSpace (hd ?rest)"
      using False hd_dropWhile [of "\<lambda>c. \<not> isSpace c" s] by simp
    then have run: "isWsToken (takeWhile isSpace ?rest)"
      using False by (intro run_isWsToken)
    have "splitCapture s = ?w # takeWhile isSpace ?rest # splitCapture (dropWhile isSpace ?rest)"
      using False by (simp only: splitCapture_unfold [of s] simp_thms if_False)
    then show ?thesis using wfree run ih by simp
  qed
qed

lemma splitCapture_words: "filter (\<lambda>t. \<not> isWsToken t) (splitCapture s) = splitWs s"
proof (induction s rule: splitCapture.induct)
  case (1 s)
  let ?w = "takeWhile (\<lambda>c. \<not> isSpace c) s"
  let ?rest = "dropWhile (\<lambda>c. \<not> isSpace c) s"
  show ?case
  proof (cases "?rest = []")
    case True
    then have "splitCapture s = [?w]"
      by (simp only: splitCapture_unfold [of s] simp_thms if_True)
    moreover have "splitWs s = [?w]"
      using True by (subst splitWs.simps) (simp only: Let_def simp_thms if_True)
    ultimately show ?thesis using word_not_isWsToken [of s] by simp
  next
    case False
    have ih: "filter (\<lambda>t. \<not> isWsToken t) (splitCapture (dropWhile isSpace ?rest))
        = splitWs (dropWhile isSpace ?rest)"
      using "1.IH" [OF refl refl False] .
    have "isSpace (hd ?rest)"
      using False hd_dropWhile [of "\<lambda>c. \<not> isSpace c" s] by simp
    then have run: "isWsToken (takeWhile isSpace ?rest)"
      using False by (intro run_isWsToken)
    have "splitCapture s = ?w # takeWhile isSpace ?rest # splitCapture (dropWhile isSpace ?rest)"
      using False by (simp only: splitCapture_unfold [of s] simp_thms if_False)
    moreover have "splitWs s = ?w # splitWs (dropWhile isSpace ?rest)"
      using False by (subst splitWs.simps) (simp only: Let_def simp_thms if_False)
    ultimately show ?thesis using word_not_isWsToken [of s] run ih by simp
  qed
qed

lemma dedupeLoop_append:
  "dedupeLoop m out lastWord repeatCount tokens = out @ dedupeLoop m [] lastWord repeatCount tokens"
proof (induction tokens arbitrary: out lastWord repeatCount)
  case Nil
  then show ?case by simp
next
  case (Cons token tokens)
  have a: "\<And>lw rc. dedupeLoop m (out @ [token]) lw rc tokens
      = out @ token # dedupeLoop m [] lw rc tokens"
    using Cons.IH [of "out @ [token]"] by simp
  have b: "\<And>lw rc. dedupeLoop m [token] lw rc tokens = token # dedupeLoop m [] lw rc tokens"
    using Cons.IH [of "[token]"] by simp
  have c: "\<And>lw rc. dedupeLoop m out lw rc tokens = out @ dedupeLoop m [] lw rc tokens"
    using Cons.IH [of out] by simp
  show ?case
    by (simp add: Let_def a b c)
qed

lemma dedupeLoop_ws_head:
  "isWsToken u \<Longrightarrow> dedupeLoop m [] lw rc (u # ts) = u # dedupeLoop m [] lw rc ts"
  using dedupeLoop_append [of m "[u]" lw rc ts] by simp

lemma dedupeLoop_separated:
  "separated tokens \<Longrightarrow> separated (dedupeLoop m [] lw rc tokens)"
proof (induction tokens arbitrary: lw rc)
  case Nil
  then show ?case by simp
next
  case (Cons t ts)
  have sep: "\<And>lw rc. separated (dedupeLoop m [] lw rc ts)"
    using Cons.IH Cons.prems by simp
  show ?case
  proof (cases "isWsToken t")
    case True
    then have "dedupeLoop m [] lw rc (t # ts) = t # dedupeLoop m [] lw rc ts"
      by (rule dedupeLoop_ws_head)
    then show ?thesis using True sep by (simp del: dedupeLoop.simps)
  next
    case False
    then have free: "list_all (\<lambda>c. \<not> isSpace c) t" and nxt: "ts = [] \<or> isWsToken (hd ts)"
      using Cons.prems by simp_all
    have hd': "\<And>lw rc. dedupeLoop m [] lw rc ts = []
        \<or> isWsToken (hd (dedupeLoop m [] lw rc ts))"
    proof -
      fix lw rc
      show "dedupeLoop m [] lw rc ts = [] \<or> isWsToken (hd (dedupeLoop m [] lw rc ts))"
      proof (cases ts)
        case Nil
        then show ?thesis by simp
      next
        case (Cons u us)
        then have u: "isWsToken u" using nxt by simp
        then have "dedupeLoop m [] lw rc (u # us) = u # dedupeLoop m [] lw rc us"
          by (rule dedupeLoop_ws_head)
        then show ?thesis using Cons u by (simp del: dedupeLoop.simps)
      qed
    qed
    have keep: "\<And>lw rc. separated (t # dedupeLoop m [] lw rc ts)"
      using free hd' sep by simp
    have app: "\<And>lw rc. dedupeLoop m [t] lw rc ts = t # dedupeLoop m [] lw rc ts"
      using dedupeLoop_append [of m "[t]"] by simp
    show ?thesis
      using False keep sep by (simp add: Let_def app)
  qed
qed

lemma separated_words:
  "separated ts \<Longrightarrow>
   nonEmptyWords (concat ts) = filter (\<lambda>w. w \<noteq> []) (filter (\<lambda>t. \<not> isWsToken t) ts)"
proof (induction ts)
  case Nil
  then show ?case by (simp add: nonEmptyWords_Nil)
next
  case (Cons t ts)
  have ih: "nonEmptyWords (concat ts) = filter (\<lambda>w. w \<noteq> []) (filter (\<lambda>t. \<not> isWsToken t) ts)"
    using Cons by simp
  show ?case
  proof (cases "isWsToken t")
    case True
    then have "nonEmptyWords (t @ concat ts) = nonEmptyWords (concat ts)"
      by (intro nonEmptyWords_ws_token) (simp add: isWsToken_def)
    then show ?thesis using True ih by simp
  next
    case False
    then have free: "\<forall>c \<in> set t. \<not> isSpace c" and nxt: "ts = [] \<or> isWsToken (hd ts)"
      using Cons.prems by (simp_all add: list_all_iff)
    show ?thesis
    proof (cases "t = []")
      case True
      then show ?thesis using False ih by simp
    next
      case ne: False
      have "concat ts = [] \<or> isSpace (hd (concat ts))"
      proof (cases ts)
        case Nil
        then show ?thesis by simp
      next
        case (Cons u us)
        then have "isWsToken u" using nxt by simp
        then have "u \<noteq> []" "isSpace (hd u)"
          by (cases u; simp add: isWsToken_def)+
        then show ?thesis using Cons by simp
      qed
      then have "nonEmptyWords (t @ concat ts) = t # nonEmptyWords (concat ts)"
        using ne free by (intro nonEmptyWords_word)
      then show ?thesis using False ne ih by simp
    qed
  qed
qed

lemma dedupe_words:
  "dedupeConsecutiveWords m text =
     join '' '' (filter (\<lambda>w. w \<noteq> [])
       (filter (\<lambda>t. \<not> isWsToken t) (dedupeLoop m [] [] 0 (splitCapture text))))"
proof (cases "text = []")
  case True
  have "splitCapture [] = [[]]" by (simp add: splitCapture_unfold [of "[]"])
  then show ?thesis using True by (simp add: dedupeConsecutiveWords_def isWsToken_def)
next
  case False
  have "separated (dedupeLoop m [] [] 0 (splitCapture text))"
    by (rule dedupeLoop_separated) (rule splitCapture_separated)
  then have "nonEmptyWords (concat (dedupeLoop m [] [] 0 (splitCapture text)))
      = filter (\<lambda>w. w \<noteq> [])
          (filter (\<lambda>t. \<not> isWsToken t) (dedupeLoop m [] [] 0 (splitCapture text)))"
    by (rule separated_words)
  then show ?thesis
    using False by (simp add: dedupeConsecutiveWords_def Let_def trim_collapseSpaces)
qed


lemma dedupeLoop_subseq: "subseq (dedupeLoop m [] lw rc tokens) tokens"
proof (induction tokens arbitrary: lw rc)
  case Nil
  then show ?case by simp
next
  case (Cons t ts)
  have app: "\<And>lw rc. dedupeLoop m [t] lw rc ts = t # dedupeLoop m [] lw rc ts"
    using dedupeLoop_append [of m "[t]"] by simp
  have keep: "\<And>lw rc. subseq (t # dedupeLoop m [] lw rc ts) (t # ts)"
    using Cons.IH by simp
  have drop: "\<And>lw rc. subseq (dedupeLoop m [] lw rc ts) (t # ts)"
    using Cons.IH by (intro list_emb_Cons)
  show ?case
    using keep drop by (simp add: Let_def app)
qed


text \<open>
  C10. The tokenization loses nothing of the text (its tokens joined are the text), and
  the loop passes on a subsequence of the tokens that holds every whitespace token as it
  is. The result of \<^verbatim>\<open>dedupeConsecutiveWords\<close> is exactly the word tokens the loop
  passed on, the empty ones left out, with one space between neighbours: whatever
  whitespace stood between two of them (spaces, tabs, newlines, and the whitespace around
  a dropped word) has become a single space, and the whitespace at the two ends is gone.
  When the loop drops nothing the result is the words of the text joined by single
  spaces. So the result has no whitespace character but the space, no two whitespace
  characters next to each other, and no whitespace at its start or end.
\<close>

theorem dedupeConsecutiveWords_whitespace:
  "dedupeConsecutiveWords m text =
     join '' '' (filter (\<lambda>w. w \<noteq> [])
       (filter (\<lambda>t. \<not> isWsToken t) (dedupeLoop m [] [] 0 (splitCapture text))))
   \<and> concat (splitCapture text) = text
   \<and> subseq (dedupeLoop m [] [] 0 (splitCapture text)) (splitCapture text)
   \<and> filter isWsToken (dedupeLoop m [] [] 0 (splitCapture text))
        = filter isWsToken (splitCapture text)
   \<and> (dedupeLoop m [] [] 0 (splitCapture text) = splitCapture text \<longrightarrow>
        dedupeConsecutiveWords m text = join '' '' (filter (\<lambda>w. w \<noteq> []) (splitWs text)))
   \<and> (\<forall>c \<in> set (dedupeConsecutiveWords m text). isSpace c \<longrightarrow> c = CHR '' '')
   \<and> (\<forall>i. Suc i < length (dedupeConsecutiveWords m text) \<longrightarrow>
         \<not> (isSpace (dedupeConsecutiveWords m text ! i)
            \<and> isSpace (dedupeConsecutiveWords m text ! Suc i)))
   \<and> (dedupeConsecutiveWords m text \<noteq> [] \<longrightarrow>
         \<not> isSpace (hd (dedupeConsecutiveWords m text))
         \<and> \<not> isSpace (last (dedupeConsecutiveWords m text)))"
proof -
  have words: "dedupeConsecutiveWords m text =
     join '' '' (filter (\<lambda>w. w \<noteq> [])
       (filter (\<lambda>t. \<not> isWsToken t) (dedupeLoop m [] [] 0 (splitCapture text))))"
    by (rule dedupe_words)
  have nodrop: "dedupeLoop m [] [] 0 (splitCapture text) = splitCapture text \<longrightarrow>
        dedupeConsecutiveWords m text = join '' '' (filter (\<lambda>w. w \<noteq> []) (splitWs text))"
  proof
    assume eq: "dedupeLoop m [] [] 0 (splitCapture text) = splitCapture text"
    have "dedupeConsecutiveWords m text =
        join '' '' (filter (\<lambda>w. w \<noteq> []) (filter (\<lambda>t. \<not> isWsToken t) (splitCapture text)))"
      using words by (simp only: eq)
    then show "dedupeConsecutiveWords m text
        = join '' '' (filter (\<lambda>w. w \<noteq> []) (splitWs text))"
      by (simp only: splitCapture_words)
  qed
  have shape: "(\<forall>c \<in> set (dedupeConsecutiveWords m text). isSpace c \<longrightarrow> c = CHR '' '')
   \<and> (\<forall>i. Suc i < length (dedupeConsecutiveWords m text) \<longrightarrow>
         \<not> (isSpace (dedupeConsecutiveWords m text ! i)
            \<and> isSpace (dedupeConsecutiveWords m text ! Suc i)))
   \<and> (dedupeConsecutiveWords m text \<noteq> [] \<longrightarrow>
         \<not> isSpace (hd (dedupeConsecutiveWords m text))
         \<and> \<not> isSpace (last (dedupeConsecutiveWords m text)))"
  proof (cases "text = []")
    case True
    then show ?thesis by (simp add: dedupeConsecutiveWords_def)
  next
    case False
    define body where "body = collapseSpaces (concat (dedupeLoop m [] [] 0 (splitCapture text)))"
    have r: "dedupeConsecutiveWords m text = trim body"
      using False by (simp add: dedupeConsecutiveWords_def Let_def body_def)
    have "\<forall>c \<in> set (trim body). isSpace c \<longrightarrow> c = CHR '' ''"
      using set_trim [of body] collapseSpaces_only_space unfolding body_def by blast
    moreover have "\<not> adjacentSpaces (trim body)"
      unfolding body_def by (rule trim_not_adjacent) (rule collapseSpaces_not_adjacent)
    then have "\<forall>i. Suc i < length (trim body) \<longrightarrow>
        \<not> (isSpace (trim body ! i) \<and> isSpace (trim body ! Suc i))"
      using not_adjacent_nth by blast
    moreover have "trim body \<noteq> [] \<longrightarrow> \<not> isSpace (hd (trim body)) \<and> \<not> isSpace (last (trim body))"
      using trim_ends by blast
    ultimately show ?thesis unfolding r by blast
  qed
  show ?thesis
    using words nodrop shape splitCapture_concat [of "text"] dedupeLoop_subseq [of m "[]" 0 "splitCapture text"]
      dedupeLoop_whitespace_tokens [of m "[]" "[]" 0 "splitCapture text"]
    by simp
qed

theorem dedupeConsecutiveWords_whitespace_witness:
  "dedupeConsecutiveWords 2 (''  go'' @ [CHR 0x0A, CHR 0x09] @ ''go  go go '') = ''go go''
   \<and> filter (\<lambda>t. \<not> isWsToken t)
        (dedupeLoop 2 [] [] 0 (splitCapture (''  go'' @ [CHR 0x0A, CHR 0x09] @ ''go  go go '')))
        = ['''', ''go'', ''go'', '''']
   \<and> dedupeLoop 2 [] [] 0 (splitCapture (''the'' @ [CHR 0x09, CHR 0x0A] @ ''cat  sat ''))
        = splitCapture (''the'' @ [CHR 0x09, CHR 0x0A] @ ''cat  sat '')
   \<and> dedupeConsecutiveWords 2 (''the'' @ [CHR 0x09, CHR 0x0A] @ ''cat  sat '') = ''the cat sat''
   \<and> \<not> isSpace (hd ''go go'') \<and> \<not> isSpace (last ''go go'')"
proof -
  let ?a = "''  go'' @ [CHR 0x0A, CHR 0x09] @ ''go  go go ''"
  let ?b = "''the'' @ [CHR 0x09, CHR 0x0A] @ ''cat  sat ''"
  have ka: "filter (\<lambda>t. \<not> isWsToken t) (dedupeLoop 2 [] [] 0 (splitCapture ?a))
      = ['''', ''go'', ''go'', '''']"
    by code_simp
  have kb: "dedupeLoop 2 [] [] 0 (splitCapture ?b) = splitCapture ?b"
    by code_simp
  have wb: "splitWs ?b = [''the'', ''cat'', ''sat'', '''']"
    by code_simp
  from dedupeConsecutiveWords_whitespace [of 2 ?a]
  have ra: "dedupeConsecutiveWords 2 ?a = ''go go''"
    by (simp only: ka) simp
  from dedupeConsecutiveWords_whitespace [of 2 ?b] kb
  have "dedupeConsecutiveWords 2 ?b = join '' '' (filter (\<lambda>w. w \<noteq> []) (splitWs ?b))"
    by blast
  then have rb: "dedupeConsecutiveWords 2 ?b = ''the cat sat''"
    by (simp only: wb) simp
  show ?thesis
    using ra rb ka kb by (simp add: isSpace_def)
qed

lemma splitWs_no_space: "w \<in> set (splitWs s) \<Longrightarrow> c \<in> set w \<Longrightarrow> \<not> isSpace c"
proof (induction s rule: splitWs.induct)
  case (1 s)
  let ?rest = "dropWhile (\<lambda>c. \<not> isSpace c) s"
  show ?case
  proof (cases "?rest = []")
    case True
    then have "w = takeWhile (\<lambda>c. \<not> isSpace c) s"
      using "1.prems"(1) by (simp add: splitWs.simps [of s] Let_def)
    then show ?thesis using "1.prems"(2) by (auto dest: set_takeWhileD)
  next
    case False
    then have "w = takeWhile (\<lambda>c. \<not> isSpace c) s \<or> w \<in> set (splitWs (dropWhile isSpace ?rest))"
      using "1.prems"(1) by (auto simp add: splitWs.simps [of s] Let_def split: if_splits)
    then show ?thesis
    proof
      assume "w = takeWhile (\<lambda>c. \<not> isSpace c) s"
      then show ?thesis using "1.prems"(2) by (auto dest: set_takeWhileD)
    next
      assume "w \<in> set (splitWs (dropWhile isSpace ?rest))"
      then show ?thesis using "1.IH" [OF refl refl False] "1.prems"(2) by simp
    qed
  qed
qed

lemma toLowerChar_space: "toLowerChar c = CHR '' '' \<longleftrightarrow> c = CHR '' ''"
proof
  assume eq: "toLowerChar c = CHR '' ''"
  show "c = CHR '' ''"
  proof (rule ccontr)
    assume ne: "c \<noteq> CHR '' ''"
    define n where "n = (of_char c :: nat)"
    have lt: "n < 256" unfolding n_def by (rule nat_of_char_less_256)
    have up: "(65 \<le> n \<and> n \<le> 90) \<or> (192 \<le> n \<and> n \<le> 222 \<and> n \<noteq> 215)"
      using eq ne by (auto simp: toLowerChar_def Let_def n_def split: if_splits)
    then have "toLowerChar c = char_of (n + 32)"
      by (simp add: toLowerChar_def Let_def n_def)
    then have "(of_char (char_of (n + 32)) :: nat) = of_char CHR '' ''"
      using eq by simp
    then have "(n + 32) mod 256 = 32" by simp
    then show False using up lt by (auto simp: mod_if split: if_splits)
  qed
next
  assume "c = CHR '' ''"
  then show "toLowerChar c = CHR '' ''" by (simp add: toLowerChar_def)
qed

lemma toLowerCase_join:
  "toLowerCase (join '' '' ws) = join '' '' (map toLowerCase ws)"
proof (induction "'' ''" ws rule: join.induct)
  case 1
  then show ?case by (simp add: toLowerCase_def)
next
  case (2 w)
  then show ?case by simp
next
  case (3 w v vs)
  have "toLowerChar CHR '' '' = CHR '' ''" by (simp add: toLowerChar_space)
  then show ?case using 3 by (simp add: toLowerCase_def)
qed

lemma toLowerCase_no_blank: "CHR '' '' \<notin> set w \<Longrightarrow> CHR '' '' \<notin> set (toLowerCase w)"
proof
  assume a: "CHR '' '' \<notin> set w" and "CHR '' '' \<in> set (toLowerCase w)"
  then obtain c where "c \<in> set w" and "toLowerChar c = CHR '' ''"
    by (auto simp: toLowerCase_def)
  then show False using a by (simp add: toLowerChar_space)
qed

lemma first_blank_unique:
  assumes "CHR '' '' \<notin> set x" and "CHR '' '' \<notin> set y"
    and "x @ CHR '' '' # r = y @ CHR '' '' # s"
  shows "x = y \<and> r = s"
proof -
  have "\<forall>c \<in> set x. c \<noteq> CHR '' ''" "\<forall>c \<in> set y. c \<noteq> CHR '' ''"
    using assms(1,2) by blast+
  then have "takeWhile (\<lambda>c. c \<noteq> CHR '' '') (x @ CHR '' '' # r) = x"
    and "takeWhile (\<lambda>c. c \<noteq> CHR '' '') (y @ CHR '' '' # s) = y"
    by (simp_all add: takeWhile_tail)
  then have "x = y" using assms(3) by simp
  then show ?thesis using assms(3) by simp
qed

lemma join_inj:
  "length xs = length ys \<Longrightarrow>
   \<forall>w \<in> set xs. CHR '' '' \<notin> set w \<Longrightarrow> \<forall>w \<in> set ys. CHR '' '' \<notin> set w \<Longrightarrow>
   join '' '' xs = join '' '' ys \<Longrightarrow> xs = ys"
proof (induction xs ys rule: list_induct2)
  case Nil
  then show ?case by simp
next
  case (Cons x xs y ys)
  show ?case
  proof (cases xs)
    case Nil
    then have "ys = []" using Cons.hyps by simp
    then show ?thesis using Nil Cons.prems by simp
  next
    case (Cons x' xs')
    then obtain y' ys' where ys: "ys = y' # ys'"
      using Cons.hyps by (cases ys) auto
    have "x @ CHR '' '' # join '' '' xs = y @ CHR '' '' # join '' '' ys"
      using Cons.prems(3) Cons ys by simp
    then have "x = y \<and> join '' '' xs = join '' '' ys"
      using Cons.prems(1,2) by (intro first_blank_unique) simp_all
    then show ?thesis using Cons.IH Cons.prems(1,2) by simp
  qed
qed

lemma phraseMatch_words:
  assumes k: "k \<le> length prevWords" "k \<le> length nextWords"
    and p: "\<forall>w \<in> set prevWords. \<forall>c \<in> set w. \<not> isSpace c"
    and n: "\<forall>w \<in> set nextWords. \<forall>c \<in> set w. \<not> isSpace c"
  shows "phraseMatch k prevWords nextWords = wordsMatch k prevWords nextWords"
proof -
  let ?xs = "map toLowerCase (drop (length prevWords - k) prevWords)"
  let ?ys = "map toLowerCase (take k nextWords)"
  have blank: "isSpace CHR '' ''" by (simp add: isSpace_def)
  have len: "length ?xs = length ?ys" using k by simp
  have px: "\<forall>w \<in> set ?xs. CHR '' '' \<notin> set w"
  proof
    fix w assume "w \<in> set ?xs"
    then obtain v where v: "v \<in> set (drop (length prevWords - k) prevWords)" and w: "w = toLowerCase v"
      by auto
    from v have "v \<in> set prevWords" by (rule in_set_dropD)
    then have "CHR '' '' \<notin> set v" using p blank by blast
    then show "CHR '' '' \<notin> set w" unfolding w by (rule toLowerCase_no_blank)
  qed
  have py: "\<forall>w \<in> set ?ys. CHR '' '' \<notin> set w"
  proof
    fix w assume "w \<in> set ?ys"
    then obtain v where v: "v \<in> set (take k nextWords)" and w: "w = toLowerCase v"
      by auto
    from v have "v \<in> set nextWords" by (rule in_set_takeD)
    then have "CHR '' '' \<notin> set v" using n blank by blast
    then show "CHR '' '' \<notin> set w" unfolding w by (rule toLowerCase_no_blank)
  qed
  have "phraseMatch k prevWords nextWords = (join '' '' ?xs = join '' '' ?ys)"
    by (simp only: phraseMatch_def toLowerCase_join)
  also have "\<dots> = (?xs = ?ys)"
    using join_inj [OF len px py] by auto
  finally show ?thesis by (simp only: wordsMatch_def)
qed

lemma overlapLoop_step:
  "overlapLoop m prevWords nextWords ni (Suc n) =
     (if phraseMatch (Suc n) prevWords nextWords
      then dedupeConsecutiveWords m (join '' '' (drop (Suc n) nextWords))
      else overlapLoop m prevWords nextWords ni n)"
  by (simp add: phraseMatch_def Let_def)

lemma overlapLoop_found:
  "1 \<le> k \<Longrightarrow> k \<le> n \<Longrightarrow> phraseMatch k prevWords nextWords \<Longrightarrow>
   \<forall>j. k < j \<and> j \<le> n \<longrightarrow> \<not> phraseMatch j prevWords nextWords \<Longrightarrow>
   overlapLoop m prevWords nextWords ni n = dedupeConsecutiveWords m (join '' '' (drop k nextWords))"
proof (induction n)
  case 0
  then show ?case by simp
next
  case (Suc n)
  show ?case
  proof (cases "k = Suc n")
    case True
    then show ?thesis using Suc.prems(3) by (simp only: overlapLoop_step) simp
  next
    case False
    then have kn: "k \<le> n" using Suc.prems(2) by simp
    have "\<not> phraseMatch (Suc n) prevWords nextWords"
      using Suc.prems(4) kn by simp
    moreover have "overlapLoop m prevWords nextWords ni n
        = dedupeConsecutiveWords m (join '' '' (drop k nextWords))"
      using Suc.prems(1) kn Suc.prems(3) Suc.prems(4) by (intro Suc.IH) simp_all
    ultimately show ?thesis by (simp only: overlapLoop_step) simp
  qed
qed

lemma overlapLoop_none:
  "\<forall>j. 1 \<le> j \<and> j \<le> n \<longrightarrow> \<not> phraseMatch j prevWords nextWords \<Longrightarrow>
   overlapLoop m prevWords nextWords ni n = dedupeConsecutiveWords m ni"
proof (induction n)
  case 0
  then show ?case by simp
next
  case (Suc n)
  have "\<not> phraseMatch (Suc n) prevWords nextWords" using Suc.prems by simp
  moreover have "overlapLoop m prevWords nextWords ni n = dedupeConsecutiveWords m ni"
    using Suc.prems by (intro Suc.IH) simp
  ultimately show ?case by (simp only: overlapLoop_step) simp
qed

lemma splitWs_empty: "splitWs [] = [[]]"
  by (simp add: splitWs.simps [of "[]"])

text \<open>
  C1. With a non-empty previous tail, \<^verbatim>\<open>cleanTranscript\<close> takes the words of the trimmed
  tail and of the left-trimmed fragment and looks at the overlap lengths from
  \<open>min(6, number of tail words, number of fragment words)\<close> down to 1. For the largest
  length \<open>k\<close> at which the last \<open>k\<close> words of the tail equal the first \<open>k\<close> words of the
  fragment up to case, it returns \<^verbatim>\<open>dedupeConsecutiveWords\<close> of the fragment's words
  without the first \<open>k\<close>; when no length matches, it returns
  \<^verbatim>\<open>dedupeConsecutiveWords\<close> of the left-trimmed fragment. The fragment
  \<open>hello world\<close> after the tail \<open>...said hello\<close> gives \<open>world\<close>.
\<close>

theorem cleanTranscript_overlap:
  "previousTail \<noteq> [] \<Longrightarrow>
   (let prevWords = splitWs (trim previousTail);
        nextWords = splitWs (trimStart incoming);
        maxOverlap = min 6 (min (length prevWords) (length nextWords))
    in (\<forall>k. 1 \<le> k \<and> k \<le> maxOverlap \<and> wordsMatch k prevWords nextWords
             \<and> (\<forall>j. k < j \<and> j \<le> maxOverlap \<longrightarrow> \<not> wordsMatch j prevWords nextWords)
          \<longrightarrow> cleanTranscript m incoming previousTail
                = dedupeConsecutiveWords m (join '' '' (drop k nextWords)))
       \<and> ((\<forall>k. 1 \<le> k \<and> k \<le> maxOverlap \<longrightarrow> \<not> wordsMatch k prevWords nextWords)
          \<longrightarrow> cleanTranscript m incoming previousTail
                = dedupeConsecutiveWords m (trimStart incoming)))
   \<and> cleanTranscript m ''hello world'' ''...said hello'' = ''world''"
proof -
  assume tail: "previousTail \<noteq> []"
  define prevWords where "prevWords = splitWs (trim previousTail)"
  define nextWords where "nextWords = splitWs (trimStart incoming)"
  define maxOverlap where "maxOverlap = min 6 (min (length prevWords) (length nextWords))"
  have p: "\<forall>w \<in> set prevWords. \<forall>c \<in> set w. \<not> isSpace c"
    unfolding prevWords_def using splitWs_no_space by blast
  have n: "\<forall>w \<in> set nextWords. \<forall>c \<in> set w. \<not> isSpace c"
    unfolding nextWords_def using splitWs_no_space by blast
  have same: "\<And>j. j \<le> maxOverlap \<Longrightarrow>
      phraseMatch j prevWords nextWords = wordsMatch j prevWords nextWords"
    using p n by (intro phraseMatch_words) (simp_all add: maxOverlap_def)
  have empty: "dedupeConsecutiveWords m [] = []"
    by (simp add: dedupeConsecutiveWords_def)
  have found: "cleanTranscript m incoming previousTail
      = dedupeConsecutiveWords m (join '' '' (drop k nextWords))"
    if k: "1 \<le> k" "k \<le> maxOverlap" "wordsMatch k prevWords nextWords"
      and larger: "\<forall>j. k < j \<and> j \<le> maxOverlap \<longrightarrow> \<not> wordsMatch j prevWords nextWords" for k
  proof (cases "incoming = []")
    case True
    then have "nextWords = [[]]" by (simp add: nextWords_def trimStart_def splitWs_empty)
    then have "k = 1" using k by (simp add: maxOverlap_def)
    then show ?thesis
      using True \<open>nextWords = [[]]\<close> empty by (simp add: cleanTranscript_def)
  next
    case False
    have "phraseMatch k prevWords nextWords" using k same by simp
    moreover have "\<forall>j. k < j \<and> j \<le> maxOverlap \<longrightarrow> \<not> phraseMatch j prevWords nextWords"
      using larger same by simp
    ultimately have "overlapLoop m prevWords nextWords (trimStart incoming) maxOverlap
        = dedupeConsecutiveWords m (join '' '' (drop k nextWords))"
      using k by (intro overlapLoop_found) simp_all
    then show ?thesis
      using False tail
      by (simp add: cleanTranscript_def Let_def prevWords_def nextWords_def maxOverlap_def)
  qed
  have none: "cleanTranscript m incoming previousTail
      = dedupeConsecutiveWords m (trimStart incoming)"
    if no: "\<forall>k. 1 \<le> k \<and> k \<le> maxOverlap \<longrightarrow> \<not> wordsMatch k prevWords nextWords"
  proof (cases "incoming = []")
    case True
    then show ?thesis using empty by (simp add: cleanTranscript_def trimStart_def)
  next
    case False
    have "\<forall>j. 1 \<le> j \<and> j \<le> maxOverlap \<longrightarrow> \<not> phraseMatch j prevWords nextWords"
      using no same by simp
    then have "overlapLoop m prevWords nextWords (trimStart incoming) maxOverlap
        = dedupeConsecutiveWords m (trimStart incoming)"
      by (rule overlapLoop_none)
    then show ?thesis
      using False tail
      by (simp add: cleanTranscript_def Let_def prevWords_def nextWords_def maxOverlap_def)
  qed
  have ex: "cleanTranscript m ''hello world'' ''...said hello'' = ''world''"
    by code_simp
  show ?thesis
    using found none ex
    unfolding Let_def prevWords_def [symmetric] nextWords_def [symmetric] maxOverlap_def [symmetric]
    by blast
qed

theorem cleanTranscript_overlap_witness:
  "''the cat sat'' \<noteq> []
   \<and> wordsMatch 2 [''the'', ''cat'', ''sat''] [''Cat'', ''SAT'', ''on'', ''the'', ''mat'']
   \<and> \<not> wordsMatch 3 [''the'', ''cat'', ''sat''] [''Cat'', ''SAT'', ''on'', ''the'', ''mat'']
   \<and> cleanTranscript 2 ''Cat SAT on the mat'' ''the cat sat'' = ''on the mat''"
proof -
  let ?P = "[''the'', ''cat'', ''sat'']"
  let ?N = "[''Cat'', ''SAT'', ''on'', ''the'', ''mat'']"
  have t: "''the cat sat'' \<noteq> []" by simp
  have pw: "splitWs (trim ''the cat sat'') = ?P" by code_simp
  have nw: "splitWs (trimStart ''Cat SAT on the mat'') = ?N" by code_simp
  have m2: "wordsMatch 2 ?P ?N" by code_simp
  have m3: "\<not> wordsMatch 3 ?P ?N" by code_simp
  have d: "dedupeConsecutiveWords 2 (join '' '' (drop 2 ?N)) = ''on the mat''" by code_simp
  have larger: "\<forall>j. 2 < j \<and> j \<le> 3 \<longrightarrow> \<not> wordsMatch j ?P ?N"
  proof (intro allI impI)
    fix j :: nat
    assume "2 < j \<and> j \<le> 3"
    then have "j = 3" by arith
    then show "\<not> wordsMatch j ?P ?N" using m3 by simp
  qed
  from cleanTranscript_overlap [OF t, of "''Cat SAT on the mat''" 2]
  have "\<forall>k. 1 \<le> k \<and> k \<le> 3 \<and> wordsMatch k ?P ?N
          \<and> (\<forall>j. k < j \<and> j \<le> 3 \<longrightarrow> \<not> wordsMatch j ?P ?N)
        \<longrightarrow> cleanTranscript 2 ''Cat SAT on the mat'' ''the cat sat''
              = dedupeConsecutiveWords 2 (join '' '' (drop k ?N))"
    by (simp add: pw nw Let_def)
  moreover have "1 \<le> (2 :: nat) \<and> (2 :: nat) \<le> 3 \<and> wordsMatch 2 ?P ?N
      \<and> (\<forall>j. 2 < j \<and> j \<le> 3 \<longrightarrow> \<not> wordsMatch j ?P ?N)"
    using m2 larger by simp
  ultimately have "cleanTranscript 2 ''Cat SAT on the mat'' ''the cat sat''
      = dedupeConsecutiveWords 2 (join '' '' (drop 2 ?N))"
    by blast
  then show ?thesis using t m2 m3 d by simp
qed

end
